theory Spec2Isabelle
  imports Main "HOL-Library.Word"
begin

section \<open>Strings\<close>

text \<open>
  A JavaScript string is a sequence of UTF-16 code units, and \<open>s.length\<close> is the
  number of those units. Text is therefore a list of 16-bit words. Names that the
  script only compares (tags, classes, ids, event types) are plain ASCII strings.
\<close>

type_synonym jsstring = "16 word list"

definition ascii :: "string \<Rightarrow> jsstring" where
  "ascii cs = map (\<lambda>c. of_nat (of_char c)) cs"

text \<open>The code units of one Unicode code point, and of a sequence of code points.\<close>

definition utf16_units :: "nat \<Rightarrow> jsstring" where
  "utf16_units cp =
     (if cp < 0x10000 then [of_nat cp]
      else [of_nat (0xD800 + (cp - 0x10000) div 0x400),
            of_nat (0xDC00 + (cp - 0x10000) mod 0x400)])"

definition utf16 :: "nat list \<Rightarrow> jsstring" where
  "utf16 cps = concat (map utf16_units cps)"

text \<open>\<^verbatim>\<open>const countChars = (s: string) => s.length;\<close>\<close>

definition countChars :: "jsstring \<Rightarrow> nat" where
  "countChars s = length s"

text \<open>A number inside a template literal is printed in decimal.\<close>

fun decimal :: "nat \<Rightarrow> jsstring" where
  "decimal n =
     (if n < 10 then [of_nat (48 + n)]
      else decimal (n div 10) @ [of_nat (48 + n mod 10)])"

declare decimal.simps [simp del]

text \<open>
  The three literals of the render routine, as code units:
  \<open>U+30DA U+30FC U+30B8 U+5168 U+4F53 ':' ' '\<close> (the page-total label),
  \<open>U+9078 U+629E U+4E2D ':' ' '\<close> (the selection label) and
  \<open>' ' U+6587 U+5B57\<close> (the unit).
\<close>

definition lbl_total :: jsstring where
  "lbl_total = [0x30DA, 0x30FC, 0x30B8, 0x5168, 0x4F53, 0x3A, 0x20]"

definition lbl_selected :: jsstring where
  "lbl_selected = [0x9078, 0x629E, 0x4E2D, 0x3A, 0x20]"

definition lbl_unit :: jsstring where
  "lbl_unit = [0x20, 0x6587, 0x5B57]"

text \<open>The template with the selection count and the total, and the one with the total only.\<close>

definition text_selected :: "nat \<Rightarrow> nat \<Rightarrow> jsstring" where
  "text_selected k n =
     lbl_selected @ decimal k @ lbl_unit @ [0x20, 0x2F, 0x20] @ lbl_total @ decimal n @ lbl_unit"

definition text_total :: "nat \<Rightarrow> jsstring" where
  "text_total n = lbl_total @ decimal n @ lbl_unit"

text \<open>The literal written when there is no content root: the total label, \<open>0\<close>, the unit.\<close>

definition text_zero :: jsstring where
  "text_zero = [0x30DA, 0x30FC, 0x30B8, 0x5168, 0x4F53, 0x3A, 0x20, 0x30, 0x20, 0x6587, 0x5B57]"

text \<open>The wording of the specification, for comparison.\<close>

definition spec_selected :: "nat \<Rightarrow> nat \<Rightarrow> jsstring" where
  "spec_selected k n =
     ascii ''Selected: '' @ decimal k @ ascii '' characters / Document total: ''
       @ decimal n @ ascii '' characters''"

definition spec_total :: "nat \<Rightarrow> jsstring" where
  "spec_total n = ascii ''Document total: '' @ decimal n @ ascii '' characters''"

section \<open>The document\<close>

text \<open>
  The document is modelled from its body element down, as a tree of element and text
  nodes. Every node carries an identity (a number): two references are the same node
  exactly when the numbers are equal. Of an element's attributes the model keeps what
  the script's selectors read: the tag, the id, the class list and \<open>data-testid\<close>.
  Inline style values are not modelled.
\<close>

record attrs =
  tag :: string
  ident :: string
  classes :: "string list"
  testid :: "string option"

datatype dnode = Elem nat attrs "dnode list" | Text nat jsstring

fun nid_of :: "dnode \<Rightarrow> nat" where
  "nid_of (Elem n a ks) = n"
| "nid_of (Text n d) = n"

fun is_elem :: "dnode \<Rightarrow> bool" where
  "is_elem (Elem n a ks) = True"
| "is_elem (Text n d) = False"

text \<open>All nodes of a tree in document order (the node itself first).\<close>

fun nodes :: "dnode \<Rightarrow> dnode list" where
  "nodes (Text n d) = [Text n d]"
| "nodes (Elem n a ks) = Elem n a ks # concat (map nodes ks)"

definition ids :: "dnode \<Rightarrow> nat list" where
  "ids t = map nid_of (nodes t)"

text \<open>\<open>node.textContent\<close>: the text of all text descendants, in document order.\<close>

fun text_of :: "dnode \<Rightarrow> jsstring" where
  "text_of (Text n d) = d"
| "text_of (Elem n a ks) = concat (map text_of ks)"

text \<open>
  The selectors the script uses are an attribute test, a class, or a tag with a class;
  a comma-separated group is a list of them.
\<close>

datatype selector = TestId string | Class string | TagClass string string

fun sel_matches :: "selector \<Rightarrow> attrs \<Rightarrow> bool" where
  "sel_matches (TestId v) a = (testid a = Some v)"
| "sel_matches (Class c) a = (c \<in> set (classes a))"
| "sel_matches (TagClass t c) a = (tag a = t \<and> c \<in> set (classes a))"

fun node_matches :: "selector list \<Rightarrow> dnode \<Rightarrow> bool" where
  "node_matches g (Text n d) = False"
| "node_matches g (Elem n a ks) = list_ex (\<lambda>sel. sel_matches sel a) g"

text \<open>The descendants of a node, without the node itself.\<close>

fun descendants :: "dnode \<Rightarrow> dnode list" where
  "descendants (Text n d) = []"
| "descendants (Elem n a ks) = concat (map nodes ks)"

fun has_ident :: "string \<Rightarrow> dnode \<Rightarrow> bool" where
  "has_ident i (Text n d) = False"
| "has_ident i (Elem n a ks) = (ident a = i)"

text \<open>
  The chain \<open>node, node.parentNode, ...\<close> up to the root of a tree, empty when the
  node is not in the tree.
\<close>

fun chain :: "nat \<Rightarrow> dnode \<Rightarrow> nat list" where
  "chain n (Text m d) = (if m = n then [m] else [])"
| "chain n (Elem m a ks) =
     (if m = n then [m]
      else (case filter (\<lambda>c. c \<noteq> []) (map (chain n) ks) of
              [] \<Rightarrow> []
            | c # cs \<Rightarrow> c @ [m]))"

text \<open>Tree updates: a new last child, a new first child, new text, removal of a subtree.\<close>

fun append_child :: "nat \<Rightarrow> dnode \<Rightarrow> dnode \<Rightarrow> dnode" where
  "append_child p c (Text m d) = Text m d"
| "append_child p c (Elem m a ks) =
     (if m = p then Elem m a (ks @ [c]) else Elem m a (map (append_child p c) ks))"

fun prepend_child :: "nat \<Rightarrow> dnode \<Rightarrow> dnode \<Rightarrow> dnode" where
  "prepend_child p c (Text m d) = Text m d"
| "prepend_child p c (Elem m a ks) =
     (if m = p then Elem m a (c # ks) else Elem m a (map (prepend_child p c) ks))"

fun set_text :: "nat \<Rightarrow> nat \<Rightarrow> jsstring \<Rightarrow> dnode \<Rightarrow> dnode" where
  "set_text n fresh v (Text m d) = (if m = n then Text m v else Text m d)"
| "set_text n fresh v (Elem m a ks) =
     (if m = n then Elem m a (if v = [] then [] else [Text fresh v])
      else Elem m a (map (set_text n fresh v) ks))"

fun detach :: "nat \<Rightarrow> dnode \<Rightarrow> dnode" where
  "detach n (Text m d) = Text m d"
| "detach n (Elem m a ks) = Elem m a (map (detach n) (filter (\<lambda>k. nid_of k \<noteq> n) ks))"

section \<open>The state of the page and of the script\<close>

text \<open>
  The live selection as the script reads it: the number of ranges, the common ancestor
  container of range 0 and the string form of the selection.
\<close>

record sel =
  rangeCount :: nat
  commonAncestorContainer :: nat
  selString :: jsstring

text \<open>
  Closures become data. A listener is registered on a target for an event type with a
  handler: the module-level \<open>updateCounter\<close>, the handler closure that one call of
  \<open>attachCharCounterToView\<close> makes (named by the root and the counter it captured),
  or a function of some other script.
  A teardown action of the cleanup registry is one of the three closures pushed in the
  source.
\<close>

datatype target = Document | OnNode nat

datatype handler = UpdateCounter | InlineHandler nat nat | Foreign nat

datatype cleanup = RemoveCounter nat | RemoveDocListeners | InlineCleanup nat nat

text \<open>
  \<open>body\<close> is the document tree; \<open>pool\<close> holds trees that are detached from the
  document but may still be referenced. \<open>observing\<close> lists the mutation observers
  that are connected. \<open>observer\<close>, \<open>cleanupFns\<close> and \<open>contentRoots\<close> are the
  module variables of the source. The last three fields are instrumentation, not
  program state: the number of assignments \<open>contentRoots = findContentRoots()\<close>, the
  number of assignments to \<open>counter.textContent\<close>, and the teardown actions invoked
  so far, in order.
\<close>

record state =
  has_dom :: bool
  body :: dnode
  pool :: "dnode list"
  next_id :: nat
  listeners :: "(target \<times> string \<times> handler) list"
  observing :: "nat list"
  next_obs :: nat
  getSelection :: "sel option"
  observer :: "nat option"
  cleanupFns :: "cleanup list"
  contentRoots :: "nat list"
  derivations :: nat
  writes :: nat
  invoked :: "cleanup list"

definition trees :: "state \<Rightarrow> dnode list" where
  "trees s = body s # pool s"

definition lookup :: "state \<Rightarrow> nat \<Rightarrow> dnode option" where
  "lookup s n = find (\<lambda>x. nid_of x = n) (concat (map nodes (trees s)))"

definition textContent :: "state \<Rightarrow> nat \<Rightarrow> jsstring" where
  "textContent s n = (case lookup s n of None \<Rightarrow> [] | Some t \<Rightarrow> text_of t)"

definition querySelectorAll :: "state \<Rightarrow> selector list \<Rightarrow> nat list" where
  "querySelectorAll s g = map nid_of (filter (node_matches g) (nodes (body s)))"

definition querySelector :: "state \<Rightarrow> selector list \<Rightarrow> nat option" where
  "querySelector s g = map_option nid_of (find (node_matches g) (nodes (body s)))"

definition getElementById :: "state \<Rightarrow> string \<Rightarrow> nat option" where
  "getElementById s i = map_option nid_of (find (has_ident i) (nodes (body s)))"

text \<open>\<open>el.querySelector\<close> and \<open>el.querySelectorAll\<close> search the descendants of \<open>el\<close>.\<close>

definition querySelector_in :: "state \<Rightarrow> nat \<Rightarrow> selector list \<Rightarrow> nat option" where
  "querySelector_in s n g =
     (case lookup s n of
        None \<Rightarrow> None
      | Some t \<Rightarrow> map_option nid_of (find (node_matches g) (descendants t)))"


definition is_element :: "state \<Rightarrow> nat \<Rightarrow> bool" where
  "is_element s n = (case lookup s n of Some (Elem m a ks) \<Rightarrow> True | _ \<Rightarrow> False)"

definition matches :: "state \<Rightarrow> nat \<Rightarrow> selector list \<Rightarrow> bool" where
  "matches s n g = (case lookup s n of None \<Rightarrow> False | Some t \<Rightarrow> node_matches g t)"

definition parent_chain :: "state \<Rightarrow> nat \<Rightarrow> nat list" where
  "parent_chain s n =
     (case filter (\<lambda>c. c \<noteq> []) (map (chain n) (trees s)) of [] \<Rightarrow> [] | c # cs \<Rightarrow> c)"

text \<open>
  The parent of the body element is the \<open>html\<close> element, which the model leaves out;
  every other node has a parent element exactly when its chain has a second entry.
\<close>

definition has_parentElement :: "state \<Rightarrow> nat \<Rightarrow> bool" where
  "has_parentElement s n = (n = nid_of (body s) \<or> 2 \<le> length (parent_chain s n))"

definition has_firstChild :: "state \<Rightarrow> nat \<Rightarrow> bool" where
  "has_firstChild s n = (case lookup s n of Some (Elem m a (k # ks)) \<Rightarrow> True | _ \<Rightarrow> False)"

text \<open>Writes to the document.\<close>

definition appendChild :: "nat \<Rightarrow> dnode \<Rightarrow> state \<Rightarrow> state" where
  "appendChild p c s =
     s\<lparr>body := append_child p c (body s), pool := map (append_child p c) (pool s)\<rparr>"

definition insertFirst :: "nat \<Rightarrow> dnode \<Rightarrow> state \<Rightarrow> state" where
  "insertFirst p c s =
     s\<lparr>body := prepend_child p c (body s), pool := map (prepend_child p c) (pool s)\<rparr>"

text \<open>
  Assigning \<open>textContent\<close> replaces the children of an element by one new text node
  (by none for the empty string). The children that were there are detached, not
  destroyed: they stay alive in the pool for whoever still refers to them.
\<close>

definition children_of :: "state \<Rightarrow> nat \<Rightarrow> dnode list" where
  "children_of s n = (case lookup s n of Some (Elem m a ks) \<Rightarrow> ks | _ \<Rightarrow> [])"

definition setTextContent :: "nat \<Rightarrow> jsstring \<Rightarrow> state \<Rightarrow> state" where
  "setTextContent n v s =
     s\<lparr>body := set_text n (next_id s) v (body s),
       pool := map (set_text n (next_id s) v) (pool s) @ children_of s n,
       next_id := Suc (next_id s),
       writes := Suc (writes s)\<rparr>"

text \<open>
  \<open>node.remove()\<close> takes the node out of its parent; the detached subtree stays
  alive in the pool. The body element itself is never removed.
\<close>

definition removeNode :: "nat \<Rightarrow> state \<Rightarrow> state" where
  "removeNode n s =
     (case lookup s n of
        None \<Rightarrow> s
      | Some t \<Rightarrow>
          if n = nid_of (body s) then s
          else s\<lparr>body := detach n (body s),
                 pool := map (detach n) (filter (\<lambda>k. nid_of k \<noteq> n) (pool s)) @ [t]\<rparr>)"

text \<open>
  \<open>addEventListener\<close> ignores a registration that is already present;
  \<open>removeEventListener\<close> drops the matching one.
\<close>

definition addEventListener :: "target \<times> string \<times> handler \<Rightarrow> state \<Rightarrow> state" where
  "addEventListener l s =
     (if l \<in> set (listeners s) then s else s\<lparr>listeners := listeners s @ [l]\<rparr>)"

definition removeEventListener :: "target \<times> string \<times> handler \<Rightarrow> state \<Rightarrow> state" where
  "removeEventListener l s = s\<lparr>listeners := filter (\<lambda>x. x \<noteq> l) (listeners s)\<rparr>"

section \<open>Code shared by the three variants\<close>

text \<open>
  \<open>isNodeInside\<close>: the loop \<open>while (cur) { if (cur === parent) return true;
  cur = cur.parentNode; }\<close> runs along the parent chain of the node.
\<close>

fun climb :: "nat \<Rightarrow> nat list \<Rightarrow> bool" where
  "climb parent [] = False"
| "climb parent (cur # up) = (if cur = parent then True else climb parent up)"

definition isNodeInside :: "state \<Rightarrow> nat \<Rightarrow> nat option \<Rightarrow> bool" where
  "isNodeInside s parent node =
     (case node of None \<Rightarrow> False | Some n \<Rightarrow> climb parent (parent_chain s n))"

definition content_selectors :: "selector list" where
  "content_selectors =
     [TestId ''page-content'', Class ''wiki'', Class ''page-content'', Class ''content-main'']"

text \<open>\<open>findContentRoots\<close>: the loop over the selector list, returning at the first hit.\<close>

fun first_hit :: "state \<Rightarrow> selector list \<Rightarrow> nat list" where
  "first_hit s [] = []"
| "first_hit s (sel # sels) =
     (let found = querySelectorAll s [sel]
      in if length found > 0 then found else first_hit s sels)"

definition findContentRoots :: "state \<Rightarrow> nat list" where
  "findContentRoots s = first_hit s content_selectors"

text \<open>The assignment \<open>contentRoots = findContentRoots()\<close>.\<close>

definition derive :: "state \<Rightarrow> state" where
  "derive s = s\<lparr>contentRoots := findContentRoots s, derivations := Suc (derivations s)\<rparr>"

text \<open>\<open>Array.prototype.join('\n')\<close>.\<close>

fun join_nl :: "jsstring list \<Rightarrow> jsstring" where
  "join_nl [] = []"
| "join_nl [x] = x"
| "join_nl (x # y # zs) = x @ [0x0A] @ join_nl (y # zs)"

definition fullText :: "state \<Rightarrow> jsstring" where
  "fullText s = join_nl (map (textContent s) (contentRoots s))"

text \<open>The selection string that counts: empty unless range 0 lies inside some root.\<close>

definition selected :: "state \<Rightarrow> jsstring" where
  "selected s =
     (case getSelection s of
        None \<Rightarrow> []
      | Some sl \<Rightarrow>
          if rangeCount sl > 0 then
            (if list_ex (\<lambda>root. isNodeInside s root (Some (commonAncestorContainer sl)))
                  (contentRoots s)
             then selString sl else [])
          else [])"

text \<open>
  The tail of \<open>updateCounter\<close>, the same lines in the floating and the anchored file:
  measure the text and the selection, then write one of the two templates.
\<close>

definition write_counts :: "nat \<Rightarrow> state \<Rightarrow> state" where
  "write_counts counter s =
     (let ft = fullText s; sl = selected s
      in if length sl > 0
         then setTextContent counter (text_selected (countChars sl) (countChars ft)) s
         else setTextContent counter (text_total (countChars ft)) s)"

text \<open>The teardown closures, and \<open>deactivate\<close>.\<close>

fun run_cleanup :: "cleanup \<Rightarrow> state \<Rightarrow> state" where
  "run_cleanup (RemoveCounter c) s = removeNode c s"
| "run_cleanup RemoveDocListeners s =
     removeEventListener (Document, ''selectionchange'', UpdateCounter)
       (removeEventListener (Document, ''mouseup'', UpdateCounter)
         (removeEventListener (Document, ''keyup'', UpdateCounter) s))"
| "run_cleanup (InlineCleanup root c) s =
     removeNode c
       (removeEventListener (Document, ''selectionchange'', InlineHandler root c)
         (removeEventListener (OnNode root, ''mouseup'', InlineHandler root c)
           (removeEventListener (OnNode root, ''keyup'', InlineHandler root c) s)))"

definition invoke :: "state \<Rightarrow> cleanup \<Rightarrow> state" where
  "invoke s fn = (run_cleanup fn s)\<lparr>invoked := invoked (run_cleanup fn s) @ [fn]\<rparr>"

definition disconnect :: "nat \<Rightarrow> state \<Rightarrow> state" where
  "disconnect ob s = s\<lparr>observing := filter (\<lambda>x. x \<noteq> ob) (observing s)\<rparr>"

definition deactivate :: "state \<Rightarrow> state" where
  "deactivate s =
     (let s1 = (case observer s of
                  None \<Rightarrow> s
                | Some ob \<Rightarrow> (disconnect ob s)\<lparr>observer := None\<rparr>);
          fns = cleanupFns s1;
          s2 = s1\<lparr>cleanupFns := []\<rparr>
      in foldl invoke s2 fns)"

text \<open>The first step of \<open>deactivate\<close>: the observer, if there is one, is disconnected and forgotten.\<close>

definition unobserved :: "state \<Rightarrow> state" where
  "unobserved s =
     (case observer s of None \<Rightarrow> s | Some ob \<Rightarrow> (disconnect ob s)\<lparr>observer := None\<rparr>)"

text \<open>\<open>new MutationObserver(cb)\<close> followed by \<open>observer.observe(document.body, ...)\<close>.\<close>

definition observe_body :: "state \<Rightarrow> state" where
  "observe_body s =
     s\<lparr>observer := Some (next_obs s),
       observing := observing s @ [next_obs s],
       next_obs := Suc (next_obs s)\<rparr>"

text \<open>A mutation record, as far as the callbacks read it.\<close>

record mutation =
  addedNodes :: "nat list"
  removedNodes :: "nat list"

section \<open>The floating variant\<close>

definition COUNTER_ID_floating :: string where
  "COUNTER_ID_floating = ''growi-view-char-counter-floating''"

text \<open>
  \<open>ensureFloatingCounter\<close>: look the counter up by its id; when there is none,
  create a \<open>div\<close> with that id, append it to the body and register its removal.
\<close>

definition floating_counter :: "nat \<Rightarrow> dnode" where
  "floating_counter c =
     Elem c \<lparr>tag = ''div'', ident = COUNTER_ID_floating, classes = [], testid = None\<rparr> []"

definition ensureFloatingCounter :: "state \<Rightarrow> nat \<times> state" where
  "ensureFloatingCounter s =
     (case getElementById s COUNTER_ID_floating of
        Some c \<Rightarrow> (c, s)
      | None \<Rightarrow>
          (let c = next_id s;
               counter = floating_counter c;
               s1 = appendChild (nid_of (body s)) counter (s\<lparr>next_id := Suc c\<rparr>);
               s2 = s1\<lparr>cleanupFns := cleanupFns s1 @ [RemoveCounter c]\<rparr>
           in (c, s2)))"

definition updateCounter_floating :: "state \<Rightarrow> state" where
  "updateCounter_floating s =
     (case ensureFloatingCounter s of
        (counter, s1) \<Rightarrow>
          (let s2 = (if length (contentRoots s1) = 0 then derive s1 else s1)
           in if length (contentRoots s2) = 0
              then setTextContent counter text_zero s2
              else write_counts counter s2))"

text \<open>
  The state in which \<open>updateCounter\<close> measures: the counter is there and an empty
  root list has been derived anew.
\<close>

definition measured_floating :: "state \<Rightarrow> state" where
  "measured_floating s =
     (let s1 = snd (ensureFloatingCounter s)
      in if length (contentRoots s1) = 0 then derive s1 else s1)"

text \<open>
  An added node qualifies when it is an element that matches the group of content
  selectors or has a descendant that does.
\<close>

definition qualifies_floating :: "state \<Rightarrow> nat \<Rightarrow> bool" where
  "qualifies_floating s node =
     (is_element s node \<and>
      (matches s node content_selectors
       \<or> querySelector_in s node content_selectors \<noteq> None))"

text \<open>The flag computed by the two nested loops over the records and their added nodes.\<close>

definition scan :: "(nat \<Rightarrow> bool) \<Rightarrow> mutation list \<Rightarrow> bool" where
  "scan q mutations =
     foldl (\<lambda>flag m. foldl (\<lambda>flag node. if q node then True else flag) flag (addedNodes m))
       False mutations"

definition callback_floating :: "mutation list \<Rightarrow> state \<Rightarrow> state" where
  "callback_floating mutations s =
     (let shouldUpdateRoots = scan (qualifies_floating s) mutations
      in if shouldUpdateRoots then updateCounter_floating (derive s) else s)"

definition add_doc_listeners :: "state \<Rightarrow> state" where
  "add_doc_listeners s =
     (let s1 = addEventListener (Document, ''keyup'', UpdateCounter) s;
          s2 = addEventListener (Document, ''mouseup'', UpdateCounter) s1;
          s3 = addEventListener (Document, ''selectionchange'', UpdateCounter) s2
      in s3\<lparr>cleanupFns := cleanupFns s3 @ [RemoveDocListeners]\<rparr>)"

definition startObserveView_floating :: "state \<Rightarrow> state" where
  "startObserveView_floating s =
     add_doc_listeners (observe_body (updateCounter_floating (derive s)))"

definition activate_floating :: "state \<Rightarrow> state" where
  "activate_floating s = (if \<not> has_dom s then s else startObserveView_floating s)"

section \<open>The anchored variant\<close>

definition COUNTER_ID_anchored :: string where
  "COUNTER_ID_anchored = ''growi-view-char-counter''"

definition version_class :: string where
  "version_class = ''SystemVersion_system-version__ygB5P''"

text \<open>\<open>findSystemVersionElement\<close>: the first element found by either selector.\<close>

fun first_element :: "state \<Rightarrow> selector list \<Rightarrow> nat option" where
  "first_element s [] = None"
| "first_element s (sel # sels) =
     (case querySelector s [sel] of Some el \<Rightarrow> Some el | None \<Rightarrow> first_element s sels)"

definition findSystemVersionElement :: "state \<Rightarrow> nat option" where
  "findSystemVersionElement s =
     first_element s [TagClass ''div'' version_class, Class version_class]"

text \<open>
  \<open>ensureCounterElement\<close>: the counter by its id; otherwise, when the version element
  is there, a new \<open>span\<close> inserted as its first child; otherwise nothing.
\<close>

definition anchored_counter :: "nat \<Rightarrow> dnode" where
  "anchored_counter c =
     Elem c \<lparr>tag = ''span'', ident = COUNTER_ID_anchored, classes = [], testid = None\<rparr> []"

definition ensureCounterElement :: "state \<Rightarrow> nat option \<times> state" where
  "ensureCounterElement s =
     (case getElementById s COUNTER_ID_anchored of
        Some c \<Rightarrow> (Some c, s)
      | None \<Rightarrow>
          (case findSystemVersionElement s of
             None \<Rightarrow> (None, s)
           | Some versionEl \<Rightarrow>
               if \<not> has_parentElement s versionEl then (None, s)
               else
                 (let c = next_id s;
                      counter = anchored_counter c;
                      s0 = s\<lparr>next_id := Suc c\<rparr>;
                      s1 = (if has_firstChild s0 versionEl
                            then insertFirst versionEl counter s0
                            else appendChild versionEl counter s0);
                      s2 = s1\<lparr>cleanupFns := cleanupFns s1 @ [RemoveCounter c]\<rparr>
                  in (Some c, s2))))"

text \<open>The state in which the anchored \<open>updateCounter\<close> looks for its counter.\<close>

definition measured_anchored :: "state \<Rightarrow> state" where
  "measured_anchored s = (if length (contentRoots s) = 0 then derive s else s)"

definition updateCounter_anchored :: "state \<Rightarrow> state" where
  "updateCounter_anchored s =
     (let s1 = (if length (contentRoots s) = 0 then derive s else s)
      in case ensureCounterElement s1 of
           (None, s2) \<Rightarrow> s2
         | (Some counter, s2) \<Rightarrow>
             if length (contentRoots s2) = 0
             then setTextContent counter text_zero s2
             else write_counts counter s2)"



definition startObserveView_anchored :: "state \<Rightarrow> state" where
  "startObserveView_anchored s =
     add_doc_listeners (observe_body (updateCounter_anchored (derive s)))"

definition activate_anchored :: "state \<Rightarrow> state" where
  "activate_anchored s = (if \<not> has_dom s then s else startObserveView_anchored s)"

section \<open>The inline variant\<close>

definition COUNTER_CLASS :: string where
  "COUNTER_CLASS = ''growi-view-char-counter''"

text \<open>
  The closure \<open>update\<close> of one attachment: it reads the text of its content root and
  writes into its counter.
\<close>

definition selected_inline :: "nat \<Rightarrow> state \<Rightarrow> jsstring" where
  "selected_inline contentRoot s =
     (case getSelection s of
        None \<Rightarrow> []
      | Some r \<Rightarrow>
          if rangeCount r > 0 then
            (if isNodeInside s contentRoot (Some (commonAncestorContainer r))
             then selString r else [])
          else [])"

definition update :: "nat \<Rightarrow> nat \<Rightarrow> state \<Rightarrow> state" where
  "update contentRoot counter s =
     (let ft = textContent s contentRoot;
          sl = selected_inline contentRoot s
      in if length sl > 0
         then setTextContent counter (text_selected (countChars sl) (countChars ft)) s
         else setTextContent counter (text_total (countChars ft)) s)"

definition inline_attrs :: attrs where
  "inline_attrs = \<lparr>tag = ''div'', ident = [], classes = [COUNTER_CLASS], testid = None\<rparr>"

definition inline_counter :: "nat \<Rightarrow> dnode" where
  "inline_counter c = Elem c inline_attrs []"

definition attachCharCounterToView :: "nat \<Rightarrow> state \<Rightarrow> state" where
  "attachCharCounterToView contentRoot s =
     (if querySelector_in s contentRoot [Class COUNTER_CLASS] \<noteq> None then s
      else
        (let c = next_id s;
             counter = inline_counter c;
             s1 = appendChild contentRoot counter (s\<lparr>next_id := Suc c\<rparr>);
             s2 = addEventListener (OnNode contentRoot, ''keyup'', InlineHandler contentRoot c) s1;
             s3 = addEventListener (OnNode contentRoot, ''mouseup'', InlineHandler contentRoot c) s2;
             s4 = addEventListener (Document, ''selectionchange'', InlineHandler contentRoot c) s3;
             s5 = update contentRoot c s4
         in s5\<lparr>cleanupFns := cleanupFns s5 @ [InlineCleanup contentRoot c]\<rparr>))"

definition attach_all :: "nat list \<Rightarrow> state \<Rightarrow> state" where
  "attach_all els s = foldl (\<lambda>st el. attachCharCounterToView el st) s els"



definition startObserveView_inline :: "state \<Rightarrow> state" where
  "startObserveView_inline s = observe_body (attach_all (findContentRoots s) s)"

definition activate_inline :: "state \<Rightarrow> state" where
  "activate_inline s = (if \<not> has_dom s then s else startObserveView_inline s)"

section \<open>Well-formed states\<close>

text \<open>
  The identities of all nodes, in the document and in the pool, and those of the
  subtree below a node.
\<close>

definition all_ids :: "state \<Rightarrow> nat list" where
  "all_ids s = concat (map ids (trees s))"

definition subtree_ids :: "state \<Rightarrow> nat \<Rightarrow> nat list" where
  "subtree_ids s r = (case lookup s r of None \<Rightarrow> [] | Some t \<Rightarrow> ids t)"

text \<open>
  In a well-formed state the body is an element, no two nodes share an identity, and
  the identities still to be given out (to nodes and to observers) are unused.
\<close>

definition wf :: "state \<Rightarrow> bool" where
  "wf s \<longleftrightarrow>
     is_elem (body s) \<and> distinct (all_ids s) \<and> list_all (\<lambda>n. n < next_id s) (all_ids s) \<and>
     list_all (\<lambda>ob. ob < next_obs s) (observing s)"

text \<open>
  The script is idle when it has no observer and an empty cleanup registry, and every
  registered listener belongs to some other script.
\<close>

fun foreign :: "target \<times> string \<times> handler \<Rightarrow> bool" where
  "foreign (t, e, Foreign k) = True"
| "foreign (t, e, h) = False"

definition idle_script :: "state \<Rightarrow> bool" where
  "idle_script s \<longleftrightarrow> observer s = None \<and> cleanupFns s = [] \<and> list_all foreign (listeners s)"

section \<open>What activation leaves behind\<close>

text \<open>A tree without the subtrees whose root identity satisfies a predicate.\<close>

fun prune :: "(nat \<Rightarrow> bool) \<Rightarrow> dnode \<Rightarrow> dnode" where
  "prune P (Text m d) = Text m d"
| "prune P (Elem m a ks) = Elem m a (map (prune P) (filter (\<lambda>k. \<not> P (nid_of k)) ks))"

text \<open>The nodes and the listeners that a teardown action removes.\<close>

fun removed_nodes :: "cleanup \<Rightarrow> nat list" where
  "removed_nodes (RemoveCounter c) = [c]"
| "removed_nodes RemoveDocListeners = []"
| "removed_nodes (InlineCleanup root c) = [c]"

fun removed_listeners :: "cleanup \<Rightarrow> (target \<times> string \<times> handler) list" where
  "removed_listeners (RemoveCounter c) = []"
| "removed_listeners RemoveDocListeners =
     [(Document, ''keyup'', UpdateCounter), (Document, ''mouseup'', UpdateCounter),
      (Document, ''selectionchange'', UpdateCounter)]"
| "removed_listeners (InlineCleanup root c) =
     [(OnNode root, ''keyup'', InlineHandler root c),
      (OnNode root, ''mouseup'', InlineHandler root c),
      (Document, ''selectionchange'', InlineHandler root c)]"

text \<open>
  The second state has the document, the listeners and the observers of the first, no
  observer of the script's and an empty cleanup registry.
\<close>

definition restored :: "state \<Rightarrow> state \<Rightarrow> bool" where
  "restored s s' \<longleftrightarrow>
     body s' = body s \<and> listeners s' = listeners s \<and> observing s' = observing s \<and>
     observer s' = None \<and> cleanupFns s' = []"

text \<open>
  The relation between an idle state and a state reached from it by attachments of the
  inline variant: without the registered counters the document is the old one, the
  listeners are the old ones followed by those the registry will remove, and every
  registry entry is an attachment's, with a counter created since.
\<close>

fun inline_entry :: "nat \<Rightarrow> nat \<Rightarrow> cleanup \<Rightarrow> bool" where
  "inline_entry lo hi (InlineCleanup r c) = (lo \<le> c \<and> c < hi)"
| "inline_entry lo hi fn = False"

definition attached :: "state \<Rightarrow> state \<Rightarrow> bool" where
  "attached s st \<longleftrightarrow>
     prune (\<lambda>n. n \<in> set (concat (map removed_nodes (cleanupFns st)))) (body st) = body s \<and>
     listeners st = listeners s @ concat (map removed_listeners (cleanupFns st)) \<and>
     list_all (inline_entry (next_id s) (next_id st)) (cleanupFns st) \<and>
     list_all (\<lambda>n. n < next_id st) (ids (body st)) \<and>
     nid_of (body st) = nid_of (body s) \<and> observer st = observer s \<and>
     observing st = observing s \<and> next_obs st = next_obs s \<and> next_id s \<le> next_id st"


text \<open>
  The renders of one inline attachment that follow its first: each event runs the
  handler with the selection of that moment. A session is an attachment with the
  renders that follow it.
\<close>

definition later_renders :: "nat \<Rightarrow> nat \<Rightarrow> sel option list \<Rightarrow> state \<Rightarrow> state" where
  "later_renders r c sels s = foldl (\<lambda>st sl. update r c (st\<lparr>getSelection := sl\<rparr>)) s sels"

definition inline_session :: "nat \<Rightarrow> sel option list \<Rightarrow> state \<Rightarrow> state" where
  "inline_session r sels s = later_renders r (next_id s) sels (attachCharCounterToView r s)"

fun add_last :: "dnode \<Rightarrow> dnode \<Rightarrow> dnode" where
  "add_last x (Elem m a ks) = Elem m a (ks @ [x])"
| "add_last x (Text m d) = Text m d"

text \<open>
  The trees of the second state are those of the first with a non-empty counter below
  \<open>r\<close>, followed by whatever earlier writes have detached.
\<close>

definition hosts :: "state \<Rightarrow> nat \<Rightarrow> nat \<Rightarrow> state \<Rightarrow> bool" where
  "hosts s r c st \<longleftrightarrow>
     (\<exists>K E. trees st = map (append_child r (Elem c inline_attrs K)) (trees s) @ E \<and>
          concat (map text_of K) \<noteq> [])"

section \<open>Example pages\<close>

definition div_with :: "string list \<Rightarrow> attrs" where
  "div_with cs = \<lparr>tag = ''div'', ident = [], classes = cs, testid = None\<rparr>"

text \<open>The state right after the script is loaded on a page with the given body.\<close>

definition idle :: "dnode \<Rightarrow> nat \<Rightarrow> state" where
  "idle b n =
     \<lparr>has_dom = True, body = b, pool = [], next_id = n, listeners = [], observing = [],
      next_obs = 0, getSelection = None, observer = None, cleanupFns = [],
      contentRoots = [], derivations = 0, writes = 0, invoked = []\<rparr>"

text \<open>A page with one content root holding \<open>hello world\<close> and a navigation element.\<close>

definition page_hello :: state where
  "page_hello =
     idle (Elem 0 (div_with [])
            [Elem 1 (div_with [''wiki'']) [Text 2 (ascii ''hello world'')],
             Elem 3 (div_with [''nav'']) [Text 4 (ascii ''menu'')]]) 5"

text \<open>The same page with the word \<open>hello\<close> selected inside the content root.\<close>

definition page_selected :: state where
  "page_selected =
     page_hello\<lparr>getSelection :=
       Some \<lparr>rangeCount = 1, commonAncestorContainer = 2, selString = ascii ''hello''\<rparr>\<rparr>"

text \<open>The page with the inline variant active.\<close>

definition page_inline :: state where
  "page_inline = activate_inline page_hello"

text \<open>The page with the inline variant active and \<open>hello\<close> selected in the content root.\<close>

definition page_inline_selected :: state where
  "page_inline_selected =
     page_inline\<lparr>getSelection :=
       Some \<lparr>rangeCount = 1, commonAncestorContainer = 2, selString = ascii ''hello''\<rparr>\<rparr>"

text \<open>The same with \<open>menu\<close> selected in the navigation element.\<close>

definition page_inline_nav :: state where
  "page_inline_nav =
     page_inline\<lparr>getSelection :=
       Some \<lparr>rangeCount = 1, commonAncestorContainer = 4, selString = ascii ''menu''\<rparr>\<rparr>"

text \<open>The page with \<open>menu\<close> selected in the navigation element, outside the content root.\<close>

definition page_selected_nav :: state where
  "page_selected_nav =
     page_hello\<lparr>getSelection :=
       Some \<lparr>rangeCount = 1, commonAncestorContainer = 4, selString = ascii ''menu''\<rparr>\<rparr>"

text \<open>A page with the version element of the host's footer.\<close>

definition page_version :: state where
  "page_version =
     idle (Elem 0 (div_with [])
            [Elem 1 (div_with [''wiki'']) [Text 2 (ascii ''hello world'')],
             Elem 3 (div_with [version_class]) [Text 4 (ascii ''v7'')]]) 5"


text \<open>A page whose content root lies inside the element with the id of the floating counter.\<close>

definition page_root_in_counter :: state where
  "page_root_in_counter =
     idle (Elem 0 (div_with [])
            [Elem 1 \<lparr>tag = ''div'', ident = COUNTER_ID_floating, classes = [], testid = None\<rparr>
               [Elem 2 (div_with [''wiki'']) [Text 3 (ascii ''hello'')]]]) 4"

text \<open>A page that already holds an element with the id of the floating counter.\<close>

definition page_preexisting :: state where
  "page_preexisting =
     idle (Elem 0 (div_with [])
            [Elem 1 (div_with [''wiki'']) [Text 2 (ascii ''hello world'')],
             Elem 3 \<lparr>tag = ''div'', ident = COUNTER_ID_floating, classes = [], testid = None\<rparr>
               []]) 4"

text \<open>
  The page after the floating variant was activated and the host then took the content
  root out of the document (a navigation to a page without content); the observer was
  told of the removal.
\<close>

definition page_navigated :: state where
  "page_navigated =
     callback_floating [\<lparr>addedNodes = [], removedNodes = [1]\<rparr>]
       (removeNode 1 (activate_floating page_hello))"

text \<open>A page without content, on which the host later inserts two content roots.\<close>

definition page_blank :: state where
  "page_blank = idle (Elem 0 (div_with []) []) 5"



text \<open>
  The blank page with the floating variant active, and an element of class \<open>wiki\<close>
  that was added and taken out again before the observer ran: the batch reports the
  addition, the document no longer holds the element.
\<close>

definition page_flicker :: state where
  "page_flicker =
     (activate_floating page_blank)
       \<lparr>pool := [Elem 1 (div_with [''wiki'']) [Text 2 (ascii ''draft'')]]\<rparr>"

definition batch_flicker :: "mutation list" where
  "batch_flicker =
     [\<lparr>addedNodes = [1], removedNodes = []\<rparr>, \<lparr>addedNodes = [], removedNodes = [1]\<rparr>]"

section \<open>Character length\<close>

lemma length_utf16_units: "length (utf16_units cp) = (if cp < 0x10000 then 1 else 2)"
  by (simp add: utf16_units_def)

text \<open>
  C9. The character-length function returns the number of UTF-16 code units of its
  argument: for the string that encodes a sequence of code points this is one per
  code point of the basic plane and two per code point above it, so it is neither the
  code-point count nor a grapheme count.
\<close>

theorem countChars_code_units:
  "countChars s = length s \<and>
   countChars (utf16 cps) = length cps + length (filter (\<lambda>cp. 0x10000 \<le> cp) cps)"
proof
  show "countChars s = length s" by (simp add: countChars_def)
  show "countChars (utf16 cps) = length cps + length (filter (\<lambda>cp. 0x10000 \<le> cp) cps)"
    unfolding countChars_def utf16_def
    by (induction cps) (simp_all add: length_utf16_units)
qed

section \<open>The root locator\<close>

lemma first_hit_find:
  "first_hit s sels =
     (case find (\<lambda>sel. querySelectorAll s [sel] \<noteq> []) sels of
        None \<Rightarrow> [] | Some sel \<Rightarrow> querySelectorAll s [sel])"
  by (induction sels) (simp_all add: Let_def)

text \<open>
  C4. The root locator returns the full match set of the first selector of its fixed
  list that matches at least one element, and the empty list when none matches. It is
  a function of the document only: it reads the state and returns no new one.
\<close>

theorem findContentRoots_first_match:
  "findContentRoots s =
     (case find (\<lambda>sel. querySelectorAll s [sel] \<noteq> []) content_selectors of
        None \<Rightarrow> []
      | Some sel \<Rightarrow> querySelectorAll s [sel])"
  unfolding findContentRoots_def by (rule first_hit_find)

section \<open>Deactivation\<close>

lemma removeNode_keeps [simp]:
  "observer (removeNode n s) = observer s"
  "cleanupFns (removeNode n s) = cleanupFns s"
  "observing (removeNode n s) = observing s"
  "invoked (removeNode n s) = invoked s"
  "listeners (removeNode n s) = listeners s"
  by (simp_all add: removeNode_def split: option.splits)

lemma removeEventListener_keeps [simp]:
  "observer (removeEventListener l s) = observer s"
  "cleanupFns (removeEventListener l s) = cleanupFns s"
  "observing (removeEventListener l s) = observing s"
  "invoked (removeEventListener l s) = invoked s"
  "body (removeEventListener l s) = body s"
  "pool (removeEventListener l s) = pool s"
  by (simp_all add: removeEventListener_def)

lemma run_cleanup_keeps [simp]:
  "observer (run_cleanup fn s) = observer s"
  "cleanupFns (run_cleanup fn s) = cleanupFns s"
  "observing (run_cleanup fn s) = observing s"
  "invoked (run_cleanup fn s) = invoked s"
  by (cases fn; simp)+

lemma invoke_keeps [simp]:
  "observer (invoke s fn) = observer s"
  "cleanupFns (invoke s fn) = cleanupFns s"
  "observing (invoke s fn) = observing s"
  "invoked (invoke s fn) = invoked s @ [fn]"
  by (simp_all add: invoke_def)

lemma foldl_invoke_keeps:
  "observer (foldl invoke s fns) = observer s \<and>
   cleanupFns (foldl invoke s fns) = cleanupFns s \<and>
   observing (foldl invoke s fns) = observing s \<and>
   invoked (foldl invoke s fns) = invoked s @ fns"
  by (induction fns arbitrary: s) simp_all

lemma deactivate_clears:
  "observer (deactivate s) = None" "cleanupFns (deactivate s) = []"
  by (simp_all add: deactivate_def Let_def foldl_invoke_keeps disconnect_def split: option.splits)

section \<open>Rendering\<close>

subsection \<open>The text that is written\<close>

lemma find_app:
  "find P (xs @ ys) = (case find P xs of None \<Rightarrow> find P ys | Some x \<Rightarrow> Some x)"
  by (induction xs) simp_all

lemma nid_of_set_text [simp]: "nid_of (set_text n f v t) = nid_of t"
  by (cases t) simp_all

lemma text_of_set_text_here: "nid_of t = n \<Longrightarrow> text_of (set_text n f v t) = v"
  by (cases t) simp_all

lemma find_nodes_set_text:
  "find (\<lambda>x. nid_of x = n) (nodes (set_text n f v t)) =
     map_option (set_text n f v) (find (\<lambda>x. nid_of x = n) (nodes t))"
proof (induction t)
  case (Elem m a ks)
  have "find (\<lambda>x. nid_of x = n) (concat (map nodes (map (set_text n f v) js))) =
        map_option (set_text n f v) (find (\<lambda>x. nid_of x = n) (concat (map nodes js)))"
    if "set js \<subseteq> set ks" for js
    using that
  proof (induction js)
    case Nil
    then show ?case by simp
  next
    case (Cons j js)
    then show ?case
      by (simp add: find_app Elem.IH split: option.splits)
  qed
  then show ?case by simp
next
  case (Text m d)
  then show ?case by simp
qed

lemma find_forest_set_text:
  "find (\<lambda>x. nid_of x = n) (concat (map nodes (map (set_text n f v) ts))) =
     map_option (set_text n f v) (find (\<lambda>x. nid_of x = n) (concat (map nodes ts)))"
  by (induction ts) (simp_all add: find_app find_nodes_set_text split: option.splits)

lemma find_nid: "find (\<lambda>x. nid_of x = n) xs = Some t \<Longrightarrow> nid_of t = n"
  by (induction xs) (simp_all split: if_splits)

lemma children_of_absent: "lookup s n = None \<Longrightarrow> children_of s n = []"
  by (simp add: children_of_def)

lemma lookup_setTextContent:
  "lookup (setTextContent n v s) n = map_option (set_text n (next_id s) v) (lookup s n)"
proof -
  have t: "trees (setTextContent n v s) =
      map (set_text n (next_id s) v) (trees s) @ children_of s n"
    by (simp add: trees_def setTextContent_def)
  show ?thesis
  proof (cases "lookup s n")
    case None
    then show ?thesis
      using find_forest_set_text [of n "next_id s" v "trees s"]
      by (simp add: lookup_def [of "setTextContent n v s"] t children_of_absent)
         (simp add: lookup_def)
  next
    case (Some x)
    then show ?thesis
      using find_forest_set_text [of n "next_id s" v "trees s"]
      by (simp add: lookup_def [of "setTextContent n v s"] t find_app)
         (simp add: lookup_def)
  qed
qed

lemma textContent_setTextContent:
  assumes "lookup s n \<noteq> None"
  shows "textContent (setTextContent n v s) n = v"
proof -
  from assms obtain t where t: "lookup s n = Some t" by auto
  then have "nid_of t = n" unfolding lookup_def by (rule find_nid)
  then show ?thesis
    by (simp add: textContent_def lookup_setTextContent t text_of_set_text_here)
qed

lemma lookup_Some_iff:
  "(\<exists>t. lookup s n = Some t) \<longleftrightarrow> n \<in> nid_of ` set (concat (map nodes (trees s)))"
proof -
  have "lookup s n \<noteq> None \<longleftrightarrow> n \<in> nid_of ` set (concat (map nodes (trees s)))"
    unfolding lookup_def find_None_iff by blast
  then show ?thesis by simp
qed

lemma lookup_present: "x \<in> set (nodes (body s)) \<Longrightarrow> \<exists>t. lookup s (nid_of x) = Some t"
  unfolding lookup_Some_iff by (simp add: trees_def)

lemma find_in_set: "find P xs = Some x \<Longrightarrow> x \<in> set xs \<and> P x"
  by (induction xs) (auto split: if_splits)

lemma getElementById_present:
  assumes "getElementById s i = Some c"
  shows "\<exists>t. lookup s c = Some t"
proof -
  from assms obtain x where x: "find (has_ident i) (nodes (body s)) = Some x" and c: "c = nid_of x"
    unfolding getElementById_def by auto
  from find_in_set [OF x] have "x \<in> set (nodes (body s))" by simp
  then show ?thesis unfolding c by (rule lookup_present)
qed

lemma lookup_derive [simp]: "lookup (derive s) n = lookup s n"
  by (simp add: lookup_def derive_def trees_def)

lemma ensureFloatingCounter_present:
  assumes "is_elem (body s)"
  shows "\<exists>t. lookup (snd (ensureFloatingCounter s)) (fst (ensureFloatingCounter s)) = Some t"
proof (cases "getElementById s COUNTER_ID_floating")
  case None
  from assms obtain b a ks where b: "body s = Elem b a ks" by (cases "body s") auto
  show ?thesis
    unfolding lookup_Some_iff
    by (simp add: ensureFloatingCounter_def None Let_def appendChild_def b trees_def
        floating_counter_def)
next
  case (Some c)
  then show ?thesis
    by (simp add: ensureFloatingCounter_def getElementById_present)
qed

lemma measured_floating_present:
  "is_elem (body s) \<Longrightarrow> lookup (measured_floating s) (fst (ensureFloatingCounter s)) \<noteq> None"
  using ensureFloatingCounter_present [of s] by (auto simp: measured_floating_def Let_def)

lemma updateCounter_floating_measured:
  "updateCounter_floating s =
     (if length (contentRoots (measured_floating s)) = 0
      then setTextContent (fst (ensureFloatingCounter s)) text_zero (measured_floating s)
      else write_counts (fst (ensureFloatingCounter s)) (measured_floating s))"
  by (simp add: updateCounter_floating_def measured_floating_def Let_def split: prod.splits)

lemma decimal_0: "decimal 0 = [0x30]"
  by (simp add: decimal.simps)

lemma text_total_0: "text_total 0 = text_zero"
  by (simp add: text_total_def text_zero_def lbl_total_def lbl_unit_def decimal_0)

lemma no_roots_measure:
  "contentRoots s = [] \<Longrightarrow> fullText s = [] \<and> selected s = []"
  by (simp add: fullText_def selected_def split: option.splits)

lemma render_floating:
  assumes "is_elem (body s)"
  shows "textContent (updateCounter_floating s) (fst (ensureFloatingCounter s)) =
     (if selected (measured_floating s) \<noteq> []
      then text_selected (length (selected (measured_floating s)))
             (length (fullText (measured_floating s)))
      else text_total (length (fullText (measured_floating s))))"
proof (cases "contentRoots (measured_floating s) = []")
  case True
  then show ?thesis
    using measured_floating_present [OF assms]
    by (simp add: updateCounter_floating_measured no_roots_measure textContent_setTextContent
        text_total_0)
next
  case False
  then show ?thesis
    using measured_floating_present [OF assms]
    by (simp add: updateCounter_floating_measured write_counts_def Let_def countChars_def
        textContent_setTextContent)
qed

lemma render_inline:
  assumes "lookup s counter \<noteq> None"
  shows "textContent (update root counter s) counter =
     (if selected_inline root s \<noteq> []
      then text_selected (length (selected_inline root s)) (length (textContent s root))
      else text_total (length (textContent s root)))"
  using assms
  by (simp add: update_def Let_def countChars_def textContent_setTextContent)

text \<open>
  C1, as the code has it. With \<open>T\<close> the concatenated text of the content roots and
  \<open>S\<close> the qualifying selection string at the time of measuring, the render routine
  sets the counter's text to the selection label, the length of \<open>S\<close>, the unit, a
  slash, the total label, the length of \<open>T\<close> and the unit when \<open>S\<close> is non-empty,
  and to the total label, the length of \<open>T\<close> and the unit when \<open>S\<close> is empty. The
  labels are the Japanese literals of the source, not the English words of the
  specification. The first conjunct is the floating variant, the second the closure of
  the inline variant, whose \<open>T\<close> is the text of its one root.
\<close>

theorem render_text:
  "(is_elem (body s) \<longrightarrow>
      textContent (updateCounter_floating s) (fst (ensureFloatingCounter s)) =
        (if selected (measured_floating s) \<noteq> []
         then text_selected (length (selected (measured_floating s)))
                (length (fullText (measured_floating s)))
         else text_total (length (fullText (measured_floating s))))) \<and>
   (lookup s counter \<noteq> None \<longrightarrow>
      textContent (update root counter s) counter =
        (if selected_inline root s \<noteq> []
         then text_selected (length (selected_inline root s)) (length (textContent s root))
         else text_total (length (textContent s root))))"
  using render_floating [of s] render_inline [of s counter root] by blast

theorem render_text_witness:
  "is_elem (body page_selected) \<and>
   textContent (updateCounter_floating page_selected) 5 = text_selected 5 11 \<and>
   lookup page_inline_selected 5 \<noteq> None \<and>
   textContent (update 1 5 page_inline_selected) 5 = text_selected 5 23"
proof -
  have a: "is_elem (body page_selected)" by code_simp
  have b: "fst (ensureFloatingCounter page_selected) = 5" by code_simp
  have c: "selected (measured_floating page_selected) \<noteq> []"
    and c': "length (selected (measured_floating page_selected)) = 5" by code_simp+
  have d: "length (fullText (measured_floating page_selected)) = 11" by code_simp
  have e: "lookup page_inline_selected 5 \<noteq> None" by code_simp
  have f: "selected_inline 1 page_inline_selected \<noteq> []"
    and f': "length (selected_inline 1 page_inline_selected) = 5" by code_simp+
  have g: "length (textContent page_inline_selected 1) = 23" by code_simp
  from render_text [of page_selected 5 1] a
  have "textContent (updateCounter_floating page_selected) (fst (ensureFloatingCounter page_selected)) =
        (if selected (measured_floating page_selected) \<noteq> []
         then text_selected (length (selected (measured_floating page_selected)))
                (length (fullText (measured_floating page_selected)))
         else text_total (length (fullText (measured_floating page_selected))))"
    by blast
  then have 1: "textContent (updateCounter_floating page_selected) 5 = text_selected 5 11"
    by (simp only: b c c' d if_True simp_thms)
  from render_text [of page_inline_selected 5 1] e
  have "textContent (update 1 5 page_inline_selected) 5 =
        (if selected_inline 1 page_inline_selected \<noteq> []
         then text_selected (length (selected_inline 1 page_inline_selected))
                (length (textContent page_inline_selected 1))
         else text_total (length (textContent page_inline_selected 1)))"
    by blast
  then have 2: "textContent (update 1 5 page_inline_selected) 5 = text_selected 5 23"
    by (simp only: f f' g if_True simp_thms)
  from a e 1 2 show ?thesis by blast
qed

text \<open>
  On the page with the one content root \<open>hello world\<close> and no selection, the text
  written is not the specification's \<open>Document total: 11 characters\<close>; with
  \<open>hello\<close> selected it is not \<open>Selected: 5 characters / Document total: 11
  characters\<close>.
\<close>

theorem render_text_counterexample:
  "fullText (measured_floating page_hello) = ascii ''hello world'' \<and>
   selected (measured_floating page_hello) = [] \<and>
   textContent (updateCounter_floating page_hello) 5 \<noteq> spec_total 11 \<and>
   selected (measured_floating page_selected) = ascii ''hello'' \<and>
   textContent (updateCounter_floating page_selected) 5 \<noteq> spec_selected 5 11"
  by code_simp

subsection \<open>The zero total\<close>

lemma trees_simps [simp]:
  "trees (derive s) = trees s"
  "trees (observe_body s) = trees s"
  "trees (add_doc_listeners s) = trees s"
  "trees (addEventListener l s) = trees s"
  "trees (removeEventListener l s) = trees s"
  by (simp_all add: trees_def derive_def observe_body_def add_doc_listeners_def Let_def
      addEventListener_def removeEventListener_def)

lemma textContent_trees: "trees s' = trees s \<Longrightarrow> textContent s' n = textContent s n"
  by (simp add: textContent_def lookup_def)

lemma querySelectorAll_body: "body s' = body s \<Longrightarrow> querySelectorAll s' g = querySelectorAll s g"
  by (simp add: querySelectorAll_def)

lemma first_hit_body: "body s' = body s \<Longrightarrow> first_hit s' sels = first_hit s sels"
  by (induction sels) (simp_all add: querySelectorAll_body [of s' s] Let_def)

lemma findContentRoots_body: "body s' = body s \<Longrightarrow> findContentRoots s' = findContentRoots s"
  unfolding findContentRoots_def by (rule first_hit_body)

lemma node_matches_root: "node_matches g (Elem b a ks) = node_matches g (Elem b a ks')"
  by simp

lemma querySelectorAll_append_root:
  assumes "body s = Elem b a ks" and "\<not> node_matches g c" and "descendants c = []"
  shows "querySelectorAll (appendChild b c s) g = querySelectorAll s g"
proof -
  have "nodes c = [c]" using assms(3) by (cases c) simp_all
  then show ?thesis
    using assms(1,2) by (simp add: querySelectorAll_def appendChild_def)
qed

lemma first_hit_append_root:
  assumes "body s = Elem b a ks" and "\<forall>sel\<in>set sels. \<not> node_matches [sel] c"
    and "descendants c = []"
  shows "first_hit (appendChild b c s) sels = first_hit s sels"
  using assms(2)
  by (induction sels) (simp_all add: querySelectorAll_append_root [OF assms(1) _ assms(3)] Let_def)

lemma findContentRoots_ensureFloatingCounter:
  assumes "is_elem (body s)"
  shows "findContentRoots (snd (ensureFloatingCounter s)) = findContentRoots s"
proof (cases "getElementById s COUNTER_ID_floating")
  case None
  from assms obtain b a ks where b: "body s = Elem b a ks" by (cases "body s") auto
  define c where "c = floating_counter (next_id s)"
  define s0 where "s0 = s\<lparr>next_id := Suc (next_id s)\<rparr>"
  have b0: "body s0 = Elem b a ks" by (simp add: s0_def b)
  have "first_hit (appendChild b c s0) content_selectors = first_hit s0 content_selectors"
    by (rule first_hit_append_root [OF b0])
       (simp_all add: c_def floating_counter_def content_selectors_def)
  also have "\<dots> = first_hit s content_selectors"
    by (rule first_hit_body) (simp add: s0_def)
  finally have 1: "findContentRoots (appendChild b c s0) = findContentRoots s"
    by (simp add: findContentRoots_def)
  have 2: "snd (ensureFloatingCounter s) =
        (appendChild b c s0)\<lparr>cleanupFns := cleanupFns (appendChild b c s0) @ [RemoveCounter (next_id s)]\<rparr>"
    by (simp add: ensureFloatingCounter_def None Let_def b c_def s0_def)
  show ?thesis
    unfolding 2 using 1 findContentRoots_body [of "(appendChild b c s0)\<lparr>cleanupFns := cleanupFns (appendChild b c s0) @ [RemoveCounter (next_id s)]\<rparr>" "appendChild b c s0"]
    by simp
next
  case (Some c)
  then show ?thesis by (simp add: ensureFloatingCounter_def)
qed

lemma ensureFloatingCounter_keeps [simp]:
  "contentRoots (snd (ensureFloatingCounter s)) = contentRoots s"
  "derivations (snd (ensureFloatingCounter s)) = derivations s"
  "writes (snd (ensureFloatingCounter s)) = writes s"
  "getSelection (snd (ensureFloatingCounter s)) = getSelection s"
  by (simp_all add: ensureFloatingCounter_def Let_def appendChild_def split: option.splits)

lemma ensureFloatingCounter_derive [simp]:
  "fst (ensureFloatingCounter (derive s)) = fst (ensureFloatingCounter s)"
  by (simp add: ensureFloatingCounter_def getElementById_def derive_def Let_def
      split: option.splits)

lemma body_derive [simp]: "body (derive s) = body s"
  by (simp add: derive_def)

lemma contentRoots_derive [simp]: "contentRoots (derive s) = findContentRoots s"
  by (simp add: derive_def)

lemma findContentRoots_derive [simp]: "findContentRoots (derive s) = findContentRoots s"
  by (rule findContentRoots_body) simp

lemma textContent_simps [simp]:
  "textContent (derive s) n = textContent s n"
  "textContent (observe_body s) n = textContent s n"
  "textContent (add_doc_listeners s) n = textContent s n"
  by (rule textContent_trees, simp)+

lemma zero_when_no_roots:
  assumes "is_elem (body s)" and "findContentRoots s = []" and "contentRoots s = []"
  shows "textContent (updateCounter_floating s) (fst (ensureFloatingCounter s)) = text_zero"
proof -
  have "contentRoots (measured_floating s) = []"
    using assms by (simp add: measured_floating_def Let_def findContentRoots_ensureFloatingCounter)
  then show ?thesis
    using measured_floating_present [OF assms(1)]
    by (simp add: updateCounter_floating_measured textContent_setTextContent)
qed

lemma zero_after_derive:
  assumes "is_elem (body s)" and "findContentRoots s = []"
  shows "textContent (updateCounter_floating (derive s)) (fst (ensureFloatingCounter s)) = text_zero"
  using zero_when_no_roots [of "derive s"] assms by simp

lemma scan_inner:
  "foldl (\<lambda>flag node. if q node then True else flag) f ns = (f \<or> (\<exists>n\<in>set ns. q n))"
  by (induction ns arbitrary: f) auto

lemma scan_iff: "scan q ms \<longleftrightarrow> (\<exists>m\<in>set ms. \<exists>n\<in>set (addedNodes m). q n)"
proof -
  have "foldl (\<lambda>flag m. foldl (\<lambda>flag node. if q node then True else flag) flag (addedNodes m)) f ms
        = (f \<or> (\<exists>m\<in>set ms. \<exists>n\<in>set (addedNodes m). q n))" for f
    by (induction ms arbitrary: f) (auto simp: scan_inner)
  then show ?thesis by (simp add: scan_def)
qed

text \<open>
  C8, as the code has it. When no content-root selector matches any element and the
  remembered list of content roots is empty, a render cycle of the floating variant
  writes the zero total. The list is empty in particular on activation and in the
  observer callback for a batch with a qualifying node, where it has just been derived
  from the document.
\<close>

theorem zero_total:
  assumes "is_elem (body s)" and "findContentRoots s = []"
  shows "(contentRoots s = [] \<longrightarrow>
            textContent (updateCounter_floating s) (fst (ensureFloatingCounter s)) = text_zero) \<and>
         (has_dom s \<longrightarrow>
            textContent (activate_floating s) (fst (ensureFloatingCounter s)) = text_zero) \<and>
         ((\<exists>m\<in>set ms. \<exists>n\<in>set (addedNodes m). qualifies_floating s n) \<longrightarrow>
            textContent (callback_floating ms s) (fst (ensureFloatingCounter s)) = text_zero)"
proof (intro conjI impI)
  assume "contentRoots s = []"
  with assms show "textContent (updateCounter_floating s) (fst (ensureFloatingCounter s)) = text_zero"
    by (rule zero_when_no_roots)
next
  assume "has_dom s"
  then have "textContent (activate_floating s) (fst (ensureFloatingCounter s)) =
        textContent (updateCounter_floating (derive s)) (fst (ensureFloatingCounter s))"
    by (simp add: activate_floating_def startObserveView_floating_def)
  then show "textContent (activate_floating s) (fst (ensureFloatingCounter s)) = text_zero"
    using zero_after_derive [OF assms] by simp
next
  assume "\<exists>m\<in>set ms. \<exists>n\<in>set (addedNodes m). qualifies_floating s n"
  then have "callback_floating ms s = updateCounter_floating (derive s)"
    by (simp add: callback_floating_def scan_iff)
  then show "textContent (callback_floating ms s) (fst (ensureFloatingCounter s)) = text_zero"
    using zero_after_derive [OF assms] by simp
qed

theorem zero_total_witness:
  "is_elem (body page_flicker) \<and> findContentRoots page_flicker = [] \<and>
   contentRoots page_flicker = [] \<and> has_dom page_flicker \<and>
   qualifies_floating page_flicker 1 \<and>
   textContent (updateCounter_floating page_flicker) 5 = text_zero \<and>
   textContent (activate_floating page_flicker) 5 = text_zero \<and>
   textContent (callback_floating batch_flicker page_flicker) 5 = text_zero"
proof -
  have a: "is_elem (body page_flicker)" by code_simp
  have b: "findContentRoots page_flicker = []" by code_simp
  have c: "contentRoots page_flicker = []" by code_simp
  have d: "has_dom page_flicker" by code_simp
  have e: "qualifies_floating page_flicker 1" by code_simp
  have f: "fst (ensureFloatingCounter page_flicker) = 5" by code_simp
  have g: "\<exists>m\<in>set batch_flicker. \<exists>n\<in>set (addedNodes m). qualifies_floating page_flicker n"
    using e by (simp add: batch_flicker_def)
  from zero_total [OF a b, of batch_flicker] a b c d e f g show ?thesis by simp
qed

text \<open>
  After the content root has left the document no selector matches, yet the next render
  still reports the eleven characters of the root it remembers.
\<close>

theorem zero_total_counterexample:
  "findContentRoots page_navigated = [] \<and>
   contentRoots page_navigated = [1] \<and>
   textContent (updateCounter_floating page_navigated) 5 = text_total 11 \<and>
   textContent (updateCounter_floating page_navigated) 5 \<noteq> text_zero"
  by code_simp

subsection \<open>One refresh per batch\<close>

lemma setTextContent_counts [simp]:
  "writes (setTextContent n v s) = Suc (writes s)"
  "derivations (setTextContent n v s) = derivations s"
  by (simp_all add: setTextContent_def)

lemma write_counts_counts [simp]:
  "writes (write_counts c s) = Suc (writes s)"
  "derivations (write_counts c s) = derivations s"
  by (simp_all add: write_counts_def Let_def)

lemma derive_counts [simp]:
  "writes (derive s) = writes s"
  "derivations (derive s) = Suc (derivations s)"
  by (simp_all add: derive_def)


lemma ensureCounterElement_keeps [simp]:
  "contentRoots (snd (ensureCounterElement s)) = contentRoots s"
  "derivations (snd (ensureCounterElement s)) = derivations s"
  "writes (snd (ensureCounterElement s)) = writes s"
  by (simp_all add: ensureCounterElement_def Let_def appendChild_def insertFirst_def
      split: option.splits)

lemma updateCounter_anchored_measured:
  "updateCounter_anchored s =
     (case ensureCounterElement (measured_anchored s) of
        (None, s2) \<Rightarrow> s2
      | (Some counter, s2) \<Rightarrow>
          if length (contentRoots s2) = 0
          then setTextContent counter text_zero s2
          else write_counts counter s2)"
  by (simp add: updateCounter_anchored_def measured_anchored_def Let_def)




section \<open>The counter surface\<close>

lemma find_concat_none:
  "(\<And>k. k \<in> set ks \<Longrightarrow> find P (f k) = None) \<Longrightarrow> find P (concat (map f ks)) = None"
  by (induction ks) (simp_all add: find_app)

lemma has_ident_root: "has_ident i (Elem m a ks) = has_ident i (Elem m a ks')"
  by simp







lemma ensureFloatingCounter_Some:
  "getElementById s COUNTER_ID_floating = Some c \<Longrightarrow> ensureFloatingCounter s = (c, s)"
  by (simp add: ensureFloatingCounter_def)

lemma ensureFloatingCounter_None:
  assumes "getElementById s COUNTER_ID_floating = None"
  shows "fst (ensureFloatingCounter s) = next_id s"
    and "body (snd (ensureFloatingCounter s)) =
           append_child (nid_of (body s)) (floating_counter (next_id s)) (body s)"
    and "pool (snd (ensureFloatingCounter s)) =
           map (append_child (nid_of (body s)) (floating_counter (next_id s))) (pool s)"
    and "cleanupFns (snd (ensureFloatingCounter s)) = cleanupFns s @ [RemoveCounter (next_id s)]"
    and "next_id (snd (ensureFloatingCounter s)) = Suc (next_id s)"
    and "listeners (snd (ensureFloatingCounter s)) = listeners s"
    and "observing (snd (ensureFloatingCounter s)) = observing s"
    and "observer (snd (ensureFloatingCounter s)) = observer s"
    and "next_obs (snd (ensureFloatingCounter s)) = next_obs s"
  using assms
  by (simp_all add: ensureFloatingCounter_def Let_def appendChild_def floating_counter_def)




lemma ensureCounterElement_skip:
  assumes "getElementById s COUNTER_ID_anchored = None"
    and "findSystemVersionElement s = None \<or>
         (\<exists>v. findSystemVersionElement s = Some v \<and> \<not> has_parentElement s v)"
  shows "ensureCounterElement s = (None, s)"
  using assms by (auto simp: ensureCounterElement_def)

lemma ensureCounterElement_new:
  assumes "getElementById s COUNTER_ID_anchored = None"
    and "findSystemVersionElement s = Some v" and "has_parentElement s v"
  shows "fst (ensureCounterElement s) = Some (next_id s)"
    and "body (snd (ensureCounterElement s)) =
           (if has_firstChild (s\<lparr>next_id := Suc (next_id s)\<rparr>) v
            then prepend_child v (anchored_counter (next_id s)) (body s)
            else append_child v (anchored_counter (next_id s)) (body s))"
    and "cleanupFns (snd (ensureCounterElement s)) = cleanupFns s @ [RemoveCounter (next_id s)]"
    and "next_id (snd (ensureCounterElement s)) = Suc (next_id s)"
  using assms
  by (simp_all add: ensureCounterElement_def Let_def appendChild_def insertFirst_def
      anchored_counter_def)



section \<open>Selections outside the content roots\<close>

lemma ids_Elem [simp]: "ids (Elem m a ks) = m # concat (map ids ks)"
  by (simp add: ids_def [abs_def] map_concat comp_def)

lemma ids_Text [simp]: "ids (Text m d) = [m]"
  by (simp add: ids_def)

lemma nid_in_ids: "nid_of t \<in> set (ids t)"
  by (cases t) simp_all

lemma nodes_ids: "x \<in> set (nodes t) \<Longrightarrow> set (ids x) \<subseteq> set (ids t)"
proof (induction t)
  case (Elem m a ks)
  then show ?case by (auto simp del: ids_Elem simp add: ids_Elem [of m a ks]) 
next
  case (Text m d)
  then show ?case by simp
qed

lemma chain_in_ids: "chain a t \<noteq> [] \<Longrightarrow> a \<in> set (ids t)"
proof (induction t)
  case (Text m d)
  then show ?case by (simp split: if_splits)
next
  case (Elem m at ks)
  show ?case
  proof (cases "m = a")
    case True
    then show ?thesis by simp
  next
    case False
    with Elem.prems obtain c cs where f: "filter (\<lambda>c. c \<noteq> []) (map (chain a) ks) = c # cs"
      by (auto split: list.splits)
    then have "c \<in> set (filter (\<lambda>c. c \<noteq> []) (map (chain a) ks))" by simp
    then obtain k where "k \<in> set ks" "chain a k \<noteq> []" by auto
    with Elem.IH show ?thesis by auto
  qed
qed

lemma first_chain_source:
  "filter (\<lambda>c. c \<noteq> []) (map (chain a) ks) = c # cs \<Longrightarrow> \<exists>k\<in>set ks. chain a k = c \<and> c \<noteq> []"
proof -
  assume "filter (\<lambda>c. c \<noteq> []) (map (chain a) ks) = c # cs"
  then have "c \<in> set (filter (\<lambda>c. c \<noteq> []) (map (chain a) ks))" by simp
  then show ?thesis by auto
qed

lemma find_nid_in_nodes:
  "find (\<lambda>x. nid_of x = r) (nodes t) = Some x \<Longrightarrow> r \<in> set (ids t)"
  by (auto simp: ids_def dest!: find_in_set)

lemma find_among_distinct:
  assumes "distinct (concat (map ids ks))" and "k \<in> set ks"
    and "find (\<lambda>x. nid_of x = r) (nodes k) = Some x"
  shows "find (\<lambda>x. nid_of x = r) (concat (map nodes ks)) = Some x"
  using assms
proof (induction ks)
  case Nil
  then show ?case by simp
next
  case (Cons j js)
  from Cons.prems(3) have rk: "r \<in> set (ids k)" by (rule find_nid_in_nodes)
  show ?case
  proof (cases "find (\<lambda>x. nid_of x = r) (nodes j)")
    case None
    with Cons.prems have "k \<in> set js" by auto
    with Cons None show ?thesis by (simp add: find_app)
  next
    case (Some y)
    then have rj: "r \<in> set (ids j)" by (rule find_nid_in_nodes)
    have "k = j"
    proof (rule ccontr)
      assume "k \<noteq> j"
      with Cons.prems(2) have "k \<in> set js" by simp
      with rk have "r \<in> set (concat (map ids js))" by auto
      with rj Cons.prems(1) show False by auto
    qed
    with Some Cons.prems(3) show ?thesis by (simp add: find_app)
  qed
qed

lemma chain_subtree:
  assumes "distinct (ids t)" and "r \<in> set (chain a t)"
  shows "\<exists>x. find (\<lambda>x. nid_of x = r) (nodes t) = Some x \<and> a \<in> set (ids x)"
  using assms
proof (induction t)
  case (Text m d)
  then show ?case by (simp split: if_splits)
next
  case (Elem m at ks)
  show ?case
  proof (cases "m = a")
    case True
    with Elem.prems show ?thesis by simp
  next
    case False
    from False Elem.prems(2) have "filter (\<lambda>c. c \<noteq> []) (map (chain a) ks) \<noteq> []"
      by auto
    then obtain c cs where f: "filter (\<lambda>c. c \<noteq> []) (map (chain a) ks) = c # cs"
      by (cases "filter (\<lambda>c. c \<noteq> []) (map (chain a) ks)") auto
    with False Elem.prems(2) have r: "r \<in> set (c @ [m])" by simp
    from first_chain_source [OF f] obtain k where k: "k \<in> set ks" "chain a k = c" "c \<noteq> []"
      by blast
    from k have ak: "a \<in> set (ids k)" using chain_in_ids by blast
    show ?thesis
    proof (cases "r = m")
      case True
      with ak k(1) show ?thesis by auto
    next
      case False
      with r k have rc: "r \<in> set (chain a k)" by simp
      from Elem.prems(1) k(1) have dk: "distinct (ids k)" by (auto simp: distinct_concat_iff)
      from Elem.IH [OF k(1) dk rc] obtain x where
        x: "find (\<lambda>x. nid_of x = r) (nodes k) = Some x" "a \<in> set (ids x)" by blast
      from Elem.prems(1) have "distinct (concat (map ids ks))" by simp
      from find_among_distinct [OF this k(1) x(1)] False x(2) show ?thesis by simp
    qed
  qed
qed

lemma inside_subtree:
  assumes "distinct (all_ids s)" and "isNodeInside s r (Some a)"
  shows "a \<in> set (subtree_ids s r)"
proof -
  have climb: "climb r xs \<longleftrightarrow> r \<in> set xs" for xs
    by (induction xs) auto
  from assms(2) have "filter (\<lambda>c. c \<noteq> []) (map (chain a) (trees s)) \<noteq> []"
    by (auto simp: isNodeInside_def parent_chain_def)
  then obtain c cs where f: "filter (\<lambda>c. c \<noteq> []) (map (chain a) (trees s)) = c # cs"
    by (cases "filter (\<lambda>c. c \<noteq> []) (map (chain a) (trees s))") auto
  with assms(2) have r: "r \<in> set c"
    by (simp add: isNodeInside_def parent_chain_def climb)
  from first_chain_source [OF f] obtain k where k: "k \<in> set (trees s)" "chain a k = c"
    by blast
  from assms(1) k(1) have "distinct (ids k)" by (auto simp: all_ids_def distinct_concat_iff)
  from chain_subtree [OF this] r k(2) obtain x where
    x: "find (\<lambda>x. nid_of x = r) (nodes k) = Some x" "a \<in> set (ids x)" by blast
  from assms(1) have "distinct (concat (map ids (trees s)))" by (simp add: all_ids_def)
  from find_among_distinct [OF this k(1) x(1)] x(2) show ?thesis
    by (simp add: subtree_ids_def lookup_def)
qed

text \<open>Conversely, every node of the subtree below a node is found inside it.\<close>

lemma in_ids_chain: "a \<in> set (ids t) \<Longrightarrow> chain a t \<noteq> []"
proof (induction t)
  case (Text m d)
  then show ?case by simp
next
  case (Elem m ba ks)
  show ?case
  proof (cases "m = a")
    case True
    then show ?thesis by simp
  next
    case False
    with Elem.prems obtain k where k: "k \<in> set ks" "a \<in> set (ids k)" by auto
    with Elem.IH have "chain a k \<noteq> []" by blast
    with k(1) have "chain a k \<in> set (filter (\<lambda>c. c \<noteq> []) (map (chain a) ks))" by simp
    then have "filter (\<lambda>c. c \<noteq> []) (map (chain a) ks) \<noteq> []" by force
    with False show ?thesis by (simp split: list.splits)
  qed
qed

lemma chain_empty_iff: "chain a t = [] \<longleftrightarrow> a \<notin> set (ids t)"
  using in_ids_chain chain_in_ids by blast

lemma first_chain_unique:
  assumes "distinct (concat (map ids ks))" and "k \<in> set ks" and "a \<in> set (ids k)"
  shows "filter (\<lambda>c. c \<noteq> []) (map (chain a) ks) = [chain a k]"
  using assms
proof (induction ks)
  case Nil
  then show ?case by simp
next
  case (Cons j js)
  show ?case
  proof (cases "a \<in> set (ids j)")
    case True
    with Cons.prems have "\<forall>k'\<in>set js. a \<notin> set (ids k')" by auto
    then have rest: "filter (\<lambda>c. c \<noteq> []) (map (chain a) js) = []"
      by (auto simp: filter_empty_conv chain_empty_iff)
    from True Cons.prems have "k = j" by auto
    with True rest show ?thesis by (simp add: chain_empty_iff)
  next
    case False
    with Cons.prems have "k \<in> set js" by auto
    with Cons False show ?thesis by (simp add: chain_empty_iff)
  qed
qed

lemma find_concat_Some:
  "find P (concat (map f ks)) = Some x \<Longrightarrow> \<exists>k\<in>set ks. find P (f k) = Some x"
  by (induction ks) (auto simp: find_app split: option.splits)

lemma subtree_chain:
  assumes "distinct (ids t)" and "find (\<lambda>x. nid_of x = r) (nodes t) = Some x"
    and "a \<in> set (ids x)"
  shows "r \<in> set (chain a t)"
  using assms
proof (induction t)
  case (Text m d)
  then show ?case by (auto split: if_splits)
next
  case (Elem m ba ks)
  show ?case
  proof (cases "m = r")
    case True
    with Elem.prems(2) have x: "x = Elem m ba ks" by simp
    show ?thesis
    proof (cases "m = a")
      case True
      with \<open>m = r\<close> show ?thesis by simp
    next
      case False
      from Elem.prems(3) have "chain a (Elem m ba ks) \<noteq> []"
        unfolding x by (rule in_ids_chain)
      with False True show ?thesis by (auto split: list.splits)
    qed
  next
    case False
    with Elem.prems(2) have "find (\<lambda>x. nid_of x = r) (concat (map nodes ks)) = Some x" by simp
    from find_concat_Some [OF this] obtain k where
      k: "k \<in> set ks" "find (\<lambda>x. nid_of x = r) (nodes k) = Some x" by blast
    from find_in_set [OF k(2)] have "x \<in> set (nodes k)" by simp
    with Elem.prems(3) nodes_ids have ak: "a \<in> set (ids k)" by blast
    from Elem.prems(1) have dk: "distinct (concat (map ids ks))" by simp
    from Elem.prems(1) k(1) ak have ma: "m \<noteq> a" by auto
    from Elem.prems(1) k(1) have "distinct (ids k)" by (auto simp: distinct_concat_iff)
    from Elem.IH [OF k(1) this k(2) Elem.prems(3)] have "r \<in> set (chain a k)" .
    with ma first_chain_unique [OF dk k(1) ak] show ?thesis by simp
  qed
qed

lemma subtree_inside:
  assumes "distinct (all_ids s)" and "a \<in> set (subtree_ids s r)"
  shows "isNodeInside s r (Some a)"
proof -
  have climb: "climb r xs \<longleftrightarrow> r \<in> set xs" for xs
    by (induction xs) auto
  from assms(2) obtain x where x: "lookup s r = Some x" "a \<in> set (ids x)"
    by (cases "lookup s r") (auto simp: subtree_ids_def)
  from find_concat_Some [OF x(1) [unfolded lookup_def]] obtain k where
    k: "k \<in> set (trees s)" "find (\<lambda>x. nid_of x = r) (nodes k) = Some x" by blast
  from find_in_set [OF k(2)] have "x \<in> set (nodes k)" by simp
  with x(2) nodes_ids have ak: "a \<in> set (ids k)" by blast
  from assms(1) have d: "distinct (concat (map ids (trees s)))" by (simp add: all_ids_def)
  from d k(1) have "distinct (ids k)" by (auto simp: distinct_concat_iff)
  from subtree_chain [OF this k(2) x(2)] have "r \<in> set (chain a k)" .
  with first_chain_unique [OF d k(1) ak] show ?thesis
    by (simp add: isNodeInside_def parent_chain_def climb)
qed

lemma isNodeInside_iff:
  "distinct (all_ids s) \<Longrightarrow> isNodeInside s r (Some a) \<longleftrightarrow> a \<in> set (subtree_ids s r)"
  using inside_subtree subtree_inside by blast

lemma append_child_absent: "p \<notin> set (ids t) \<Longrightarrow> append_child p c t = t"
  by (induction t) (auto simp: map_idI)

lemma set_text_absent: "n \<notin> set (ids t) \<Longrightarrow> set_text n f v t = t"
  by (induction t) (auto simp: map_idI)

lemma detach_absent: "n \<notin> set (ids t) \<Longrightarrow> detach n t = t"
proof (induction t)
  case (Elem m a ks)
  then have "filter (\<lambda>k. nid_of k \<noteq> n) ks = ks"
    using nid_in_ids by (fastforce simp: filter_id_conv)
  with Elem show ?case by (auto simp: map_idI)
next
  case (Text m d)
  then show ?case by simp
qed

lemma all_ids_body: "all_ids s = ids (body s) @ concat (map ids (pool s))"
  by (simp add: all_ids_def trees_def)

lemma wf_ensureFloatingCounter:
  assumes "wf s"
  shows "wf (snd (ensureFloatingCounter s))"
proof (cases "getElementById s COUNTER_ID_floating")
  case (Some c)
  with assms show ?thesis by (simp add: ensureFloatingCounter_Some)
next
  case None
  note new = ensureFloatingCounter_None [OF None]
  from assms obtain b a ks where b: "body s = Elem b a ks"
    by (cases "body s") (auto simp: wf_def)
  from assms have d: "distinct (all_ids s)" and f: "\<forall>n\<in>set (all_ids s). n < next_id s"
    by (auto simp: wf_def list_all_iff)
  have pool: "map (append_child b (floating_counter (next_id s))) (pool s) = pool s"
  proof (rule map_idI)
    fix t assume "t \<in> set (pool s)"
    with d have "b \<notin> set (ids t)" by (auto simp: all_ids_body b)
    then show "append_child b (floating_counter (next_id s)) t = t"
      by (rule append_child_absent)
  qed
  from new(3) pool have pool': "pool (snd (ensureFloatingCounter s)) = pool s"
    by (simp add: b)
  have body': "body (snd (ensureFloatingCounter s)) = Elem b a (ks @ [floating_counter (next_id s)])"
    by (simp add: new(2) b)
  have ids: "all_ids (snd (ensureFloatingCounter s)) =
      b # concat (map ids ks) @ [next_id s] @ concat (map ids (pool s))"
    by (simp add: all_ids_body body' pool' floating_counter_def)
  have old: "all_ids s = b # concat (map ids ks) @ concat (map ids (pool s))"
    by (simp add: all_ids_body b)
  from d f have "distinct (all_ids (snd (ensureFloatingCounter s)))"
    unfolding ids old by auto
  moreover have "\<forall>n\<in>set (all_ids (snd (ensureFloatingCounter s))). n < Suc (next_id s)"
  proof
    fix n assume "n \<in> set (all_ids (snd (ensureFloatingCounter s)))"
    then have "n = next_id s \<or> n \<in> set (all_ids s)" unfolding ids old by auto
    with f show "n < Suc (next_id s)" by (auto simp: less_Suc_eq)
  qed
  moreover have "is_elem (body (snd (ensureFloatingCounter s)))"
    by (simp add: new b)
  ultimately show ?thesis
    using assms by (simp add: wf_def new list_all_iff)
qed

lemma all_ids_derive [simp]: "all_ids (derive s) = all_ids s"
  by (simp add: all_ids_def)

lemma wf_derive [simp]: "wf (derive s) = wf s"
  by (simp add: wf_def) (simp add: derive_def)

lemma wf_measured_floating: "wf s \<Longrightarrow> wf (measured_floating s)"
  by (simp add: measured_floating_def Let_def wf_ensureFloatingCounter)

lemma selected_outside:
  assumes "distinct (all_ids s)" and "getSelection s = Some sl"
    and "\<forall>r\<in>set (contentRoots s). commonAncestorContainer sl \<notin> set (subtree_ids s r)"
  shows "selected s = []"
proof -
  from assms(1,3) have "\<not> list_ex (\<lambda>root. isNodeInside s root (Some (commonAncestorContainer sl)))
      (contentRoots s)"
    by (auto simp: list_ex_iff dest: inside_subtree)
  with assms(2) show ?thesis by (simp add: selected_def)
qed

lemma selected_inline_outside:
  assumes "distinct (all_ids s)" and "getSelection s = Some sl"
    and "commonAncestorContainer sl \<notin> set (subtree_ids s root)"
  shows "selected_inline root s = []"
  using assms by (auto simp: selected_inline_def dest: inside_subtree)

lemma getSelection_measured [simp]: "getSelection (measured_floating s) = getSelection s"
  by (simp add: measured_floating_def Let_def derive_def)

text \<open>
  C3. When the common ancestor container of the selection's first range is not among
  the nodes of the subtree of any content root, the render routine writes the
  no-selection form, whatever the selection's string is. The first conjunct is the
  floating variant, the second the closure of the inline variant with its one root.
\<close>

theorem selection_outside_roots:
  "(wf s \<and> getSelection s = Some sl \<and>
    (\<forall>r\<in>set (contentRoots (measured_floating s)).
        commonAncestorContainer sl \<notin> set (subtree_ids (measured_floating s) r)) \<longrightarrow>
      textContent (updateCounter_floating s) (fst (ensureFloatingCounter s)) =
        text_total (length (fullText (measured_floating s)))) \<and>
   (wf s \<and> lookup s counter \<noteq> None \<and> getSelection s = Some sl \<and>
    commonAncestorContainer sl \<notin> set (subtree_ids s root) \<longrightarrow>
      textContent (update root counter s) counter = text_total (length (textContent s root)))"
proof (intro conjI impI)
  assume h: "wf s \<and> getSelection s = Some sl \<and>
    (\<forall>r\<in>set (contentRoots (measured_floating s)).
        commonAncestorContainer sl \<notin> set (subtree_ids (measured_floating s) r))"
  then have "wf (measured_floating s)" by (simp add: wf_measured_floating)
  then have "distinct (all_ids (measured_floating s))" by (simp add: wf_def)
  with h have "selected (measured_floating s) = []"
    by (intro selected_outside [where sl = sl]) simp_all
  moreover from h have "is_elem (body s)" by (simp add: wf_def)
  ultimately show "textContent (updateCounter_floating s) (fst (ensureFloatingCounter s)) =
        text_total (length (fullText (measured_floating s)))"
    by (simp add: render_floating)
next
  assume h: "wf s \<and> lookup s counter \<noteq> None \<and> getSelection s = Some sl \<and>
    commonAncestorContainer sl \<notin> set (subtree_ids s root)"
  then have "selected_inline root s = []"
    by (intro selected_inline_outside [where sl = sl]) (simp_all add: wf_def)
  with h show "textContent (update root counter s) counter = text_total (length (textContent s root))"
    by (simp add: render_inline)
qed

theorem selection_outside_roots_witness:
  "wf page_selected_nav \<and>
   getSelection page_selected_nav =
     Some \<lparr>rangeCount = 1, commonAncestorContainer = 4, selString = ascii ''menu''\<rparr> \<and>
   contentRoots (measured_floating page_selected_nav) = [1] \<and>
   4 \<notin> set (subtree_ids (measured_floating page_selected_nav) 1) \<and>
   textContent (updateCounter_floating page_selected_nav) 5 = text_total 11 \<and>
   wf page_inline_nav \<and> lookup page_inline_nav 5 \<noteq> None \<and>
   4 \<notin> set (subtree_ids page_inline_nav 1) \<and>
   textContent (update 1 5 page_inline_nav) 5 = text_total 23"
proof -
  define sl where
    "sl = \<lparr>rangeCount = 1, commonAncestorContainer = 4, selString = ascii ''menu''\<rparr>"
  have a: "wf page_selected_nav" by code_simp
  have b: "getSelection page_selected_nav = Some sl" unfolding sl_def by code_simp
  have c: "contentRoots (measured_floating page_selected_nav) = [1]" by code_simp
  have d: "4 \<notin> set (subtree_ids (measured_floating page_selected_nav) 1)" by code_simp
  have e: "fst (ensureFloatingCounter page_selected_nav) = 5" by code_simp
  have f: "length (fullText (measured_floating page_selected_nav)) = 11" by code_simp
  have a': "wf page_inline_nav" by code_simp
  have b': "getSelection page_inline_nav = Some sl" unfolding sl_def by code_simp
  have g: "lookup page_inline_nav 5 \<noteq> None" by code_simp
  have h: "4 \<notin> set (subtree_ids page_inline_nav 1)" by code_simp
  have i: "length (textContent page_inline_nav 1) = 23" by code_simp
  have j: "commonAncestorContainer sl = 4" by (simp add: sl_def)
  from c d j have k: "\<forall>r\<in>set (contentRoots (measured_floating page_selected_nav)).
        commonAncestorContainer sl \<notin> set (subtree_ids (measured_floating page_selected_nav) r)"
    by simp
  from h j have h': "commonAncestorContainer sl \<notin> set (subtree_ids page_inline_nav 1)"
    by simp
  from selection_outside_roots [of page_selected_nav sl 5 1] a b k
  have "textContent (updateCounter_floating page_selected_nav)
          (fst (ensureFloatingCounter page_selected_nav)) =
        text_total (length (fullText (measured_floating page_selected_nav)))"
    by blast
  then have 1: "textContent (updateCounter_floating page_selected_nav) 5 = text_total 11"
    by (simp only: e f)
  from selection_outside_roots [of page_inline_nav sl 5 1] a' b' g h'
  have "textContent (update 1 5 page_inline_nav) 5 =
        text_total (length (textContent page_inline_nav 1))"
    by blast
  then have 2: "textContent (update 1 5 page_inline_nav) 5 = text_total 23"
    by (simp only: i)
  from a b c d a' g h 1 2 show ?thesis unfolding sl_def by blast
qed

section \<open>Activation followed by deactivation\<close>

text \<open>
  \<open>deactivate\<close> prunes the registered nodes from the document and filters the
  registered listeners out; what an activation added is exactly what its registry
  entries remove.
\<close>

lemma nid_of_prune [simp]: "nid_of (prune P t) = nid_of t"
  by (cases t) simp_all

lemma nid_of_detach [simp]: "nid_of (detach n t) = nid_of t"
  by (cases t) simp_all

lemma nid_of_append_child [simp]: "nid_of (append_child p c t) = nid_of t"
  by (cases t) simp_all

lemma prune_none: "(\<forall>n\<in>set (ids t). \<not> P n) \<Longrightarrow> prune P t = t"
proof (induction t)
  case (Elem m a ks)
  then have "filter (\<lambda>k. \<not> P (nid_of k)) ks = ks"
    using nid_in_ids by (fastforce simp: filter_id_conv)
  with Elem show ?case by (auto simp: map_idI)
next
  case (Text m d)
  then show ?case by simp
qed

lemma detach_prune: "detach c (prune P t) = prune (\<lambda>n. P n \<or> n = c) t"
proof (induction t)
  case (Elem m a ks)
  have "map (detach c) (filter (\<lambda>k. nid_of k \<noteq> c) (map (prune P) (filter (\<lambda>k. \<not> P (nid_of k)) ks)))
      = map (prune (\<lambda>n. P n \<or> n = c)) (filter (\<lambda>k. \<not> (P (nid_of k) \<or> nid_of k = c)) ks)"
    using Elem.IH by (induction ks) auto
  then show ?case by simp
next
  case (Text m d)
  then show ?case by simp
qed

lemma detach_is_prune: "detach c t = prune (\<lambda>n. n = c) t"
  by (induction t) simp_all

lemma foldl_detach_prune:
  "foldl (\<lambda>t c. detach c t) (prune P t) cs = prune (\<lambda>n. P n \<or> n \<in> set cs) t"
proof (induction cs arbitrary: P)
  case Nil
  then show ?case by simp
next
  case (Cons c cs)
  have "(\<lambda>n. (P n \<or> n = c) \<or> n \<in> set cs) = (\<lambda>n. P n \<or> n \<in> set (c # cs))" by auto
  with Cons [of "\<lambda>n. P n \<or> n = c"] show ?case by (simp add: detach_prune)
qed

lemma prune_append_child: "P (nid_of c) \<Longrightarrow> prune P (append_child r c t) = prune P t"
proof (induction t)
  case (Elem m a ks)
  have "map (prune P) (filter (\<lambda>k. \<not> P (nid_of k)) (map (append_child r c) ks)) =
        map (prune P) (filter (\<lambda>k. \<not> P (nid_of k)) ks)"
    using Elem.IH Elem.prems by (induction ks) auto
  with Elem.prems show ?case by simp
next
  case (Text m d)
  then show ?case by simp
qed

lemma prune_set_text:
  "P c \<Longrightarrow> nid_of t \<noteq> c \<Longrightarrow> prune P (set_text c f v t) = prune P t"
proof (induction t)
  case (Elem m a ks)
  have "map (prune P) (filter (\<lambda>k. \<not> P (nid_of k)) (map (set_text c f v) ks)) =
        map (prune P) (filter (\<lambda>k. \<not> P (nid_of k)) ks)"
    using Elem.IH Elem.prems(1) by (induction ks) auto
  with Elem.prems show ?case by simp
next
  case (Text m d)
  then show ?case by simp
qed

lemma prune_cong: "(\<forall>n\<in>set (ids t). P n = Q n) \<Longrightarrow> prune P t = prune Q t"
proof (induction t)
  case (Elem m a ks)
  have "map (prune P) (filter (\<lambda>k. \<not> P (nid_of k)) js) =
        map (prune Q) (filter (\<lambda>k. \<not> Q (nid_of k)) js)" if "set js \<subseteq> set ks" for js
    using that
  proof (induction js)
    case Nil
    then show ?case by simp
  next
    case (Cons j js)
    then have j: "j \<in> set ks" by simp
    with Elem.prems have "\<forall>n\<in>set (ids j). P n = Q n" by auto
    moreover from this have "P (nid_of j) = Q (nid_of j)" using nid_in_ids by blast
    ultimately show ?case using Cons Elem.IH [OF j] by simp
  qed
  from this [of ks] show ?case by simp
next
  case (Text m d)
  then show ?case by simp
qed

lemma ids_append_child: "set (ids (append_child r c t)) \<subseteq> set (ids t) \<union> set (ids c)"
  by (induction t) auto

lemma ids_set_text: "set (ids (set_text n f v t)) \<subseteq> set (ids t) \<union> {f}"
  by (induction t) auto

lemma lookup_None_iff: "lookup s n = None \<longleftrightarrow> n \<notin> set (all_ids s)"
  by (auto simp: lookup_def find_None_iff all_ids_def ids_def)

lemma body_ids_all: "set (ids (body s)) \<subseteq> set (all_ids s)"
  by (simp add: all_ids_body)

lemma body_removeNode:
  assumes "n \<noteq> nid_of (body s)"
  shows "body (removeNode n s) = detach n (body s)"
proof (cases "lookup s n")
  case None
  then have "n \<notin> set (ids (body s))" using body_ids_all by (auto simp: lookup_None_iff)
  then show ?thesis by (simp add: removeNode_def None detach_absent)
next
  case (Some t)
  with assms show ?thesis by (simp add: removeNode_def)
qed

lemma listeners_removeEventListener [simp]:
  "listeners (removeEventListener l s) = filter (\<lambda>x. x \<noteq> l) (listeners s)"
  by (simp add: removeEventListener_def)

lemma removeEventListener_body_root [simp]:
  "nid_of (body (removeEventListener l s)) = nid_of (body s)"
  by simp

lemma body_run_cleanup:
  assumes "nid_of (body s) \<notin> set (removed_nodes fn)"
  shows "body (run_cleanup fn s) = foldl (\<lambda>t c. detach c t) (body s) (removed_nodes fn)"
  using assms by (cases fn) (simp_all add: body_removeNode)

lemma listeners_run_cleanup:
  "listeners (run_cleanup fn s) = filter (\<lambda>x. x \<notin> set (removed_listeners fn)) (listeners s)"
  by (cases fn) (auto intro: filter_cong)

lemma body_invoke:
  "nid_of (body s) \<notin> set (removed_nodes fn) \<Longrightarrow>
   body (invoke s fn) = foldl (\<lambda>t c. detach c t) (body s) (removed_nodes fn)"
  by (simp add: invoke_def body_run_cleanup)

lemma listeners_invoke:
  "listeners (invoke s fn) = filter (\<lambda>x. x \<notin> set (removed_listeners fn)) (listeners s)"
  by (simp add: invoke_def listeners_run_cleanup)

lemma nid_foldl_detach [simp]: "nid_of (foldl (\<lambda>t c. detach c t) t cs) = nid_of t"
  by (induction cs arbitrary: t) simp_all

lemma body_foldl_invoke:
  "nid_of (body s) \<notin> set (concat (map removed_nodes fns)) \<Longrightarrow>
   body (foldl invoke s fns) =
     foldl (\<lambda>t c. detach c t) (body s) (concat (map removed_nodes fns))"
proof (induction fns arbitrary: s)
  case Nil
  then show ?case by simp
next
  case (Cons fn fns)
  then have 1: "nid_of (body s) \<notin> set (removed_nodes fn)"
    and 2: "nid_of (body s) \<notin> set (concat (map removed_nodes fns))" by auto
  from 2 have "nid_of (body (invoke s fn)) \<notin> set (concat (map removed_nodes fns))"
    by (simp add: body_invoke [OF 1])
  from Cons.IH [OF this] show ?case by (simp add: body_invoke [OF 1])
qed

lemma listeners_foldl_invoke:
  "listeners (foldl invoke s fns) =
     filter (\<lambda>x. x \<notin> set (concat (map removed_listeners fns))) (listeners s)"
proof (induction fns arbitrary: s)
  case Nil
  then show ?case by simp
next
  case (Cons fn fns)
  show ?case by (simp add: Cons.IH listeners_invoke conj_commute)
qed

lemma deactivate_effect:
  assumes "nid_of (body s) \<notin> set (concat (map removed_nodes (cleanupFns s)))"
  shows "body (deactivate s) =
           prune (\<lambda>n. n \<in> set (concat (map removed_nodes (cleanupFns s)))) (body s)"
    and "listeners (deactivate s) =
           filter (\<lambda>x. x \<notin> set (concat (map removed_listeners (cleanupFns s)))) (listeners s)"
    and "observing (deactivate s) =
           (case observer s of None \<Rightarrow> observing s
            | Some ob \<Rightarrow> filter (\<lambda>x. x \<noteq> ob) (observing s))"
proof -
  define s2 where "s2 = (case observer s of None \<Rightarrow> s
      | Some ob \<Rightarrow> (disconnect ob s)\<lparr>observer := None\<rparr>)\<lparr>cleanupFns := []\<rparr>"
  have d: "deactivate s = foldl invoke s2 (cleanupFns s)"
    by (simp add: deactivate_def s2_def Let_def disconnect_def split: option.splits)
  have b: "body s2 = body s" and l: "listeners s2 = listeners s"
    by (simp_all add: s2_def disconnect_def split: option.splits)
  have "prune (\<lambda>n. False) (body s) = body s" by (simp add: prune_none)
  with foldl_detach_prune [of "\<lambda>n. False" "body s"]
  have "foldl (\<lambda>t c. detach c t) (body s) cs = prune (\<lambda>n. n \<in> set cs) (body s)" for cs
    by simp
  with assms show "body (deactivate s) =
           prune (\<lambda>n. n \<in> set (concat (map removed_nodes (cleanupFns s)))) (body s)"
    unfolding d using body_foldl_invoke [of s2 "cleanupFns s"] by (simp add: b)
  show "listeners (deactivate s) =
           filter (\<lambda>x. x \<notin> set (concat (map removed_listeners (cleanupFns s)))) (listeners s)"
    unfolding d by (simp add: listeners_foldl_invoke l)
  show "observing (deactivate s) =
           (case observer s of None \<Rightarrow> observing s
            | Some ob \<Rightarrow> filter (\<lambda>x. x \<noteq> ob) (observing s))"
    unfolding d by (simp add: foldl_invoke_keeps s2_def disconnect_def split: option.splits)
qed

lemma updateCounter_floating_write:
  "\<exists>txt. updateCounter_floating s =
      setTextContent (fst (ensureFloatingCounter s)) txt (measured_floating s)"
  by (auto simp: updateCounter_floating_measured write_counts_def Let_def)

lemma measured_floating_fields:
  "body (measured_floating s) = body (snd (ensureFloatingCounter s))"
  "next_id (measured_floating s) = next_id (snd (ensureFloatingCounter s))"
  "cleanupFns (measured_floating s) = cleanupFns (snd (ensureFloatingCounter s))"
  "listeners (measured_floating s) = listeners (snd (ensureFloatingCounter s))"
  "observing (measured_floating s) = observing (snd (ensureFloatingCounter s))"
  "observer (measured_floating s) = observer (snd (ensureFloatingCounter s))"
  "next_obs (measured_floating s) = next_obs (snd (ensureFloatingCounter s))"
  by (simp_all add: measured_floating_def Let_def derive_def)

lemma setTextContent_fields [simp]:
  "body (setTextContent n v s) = set_text n (next_id s) v (body s)"
  "cleanupFns (setTextContent n v s) = cleanupFns s"
  "listeners (setTextContent n v s) = listeners s"
  "observing (setTextContent n v s) = observing s"
  "observer (setTextContent n v s) = observer s"
  "next_obs (setTextContent n v s) = next_obs s"
  "next_id (setTextContent n v s) = Suc (next_id s)"
  by (simp_all add: setTextContent_def)

lemma derive_fields [simp]:
  "next_id (derive s) = next_id s"
  "cleanupFns (derive s) = cleanupFns s"
  "listeners (derive s) = listeners s"
  "observing (derive s) = observing s"
  "observer (derive s) = observer s"
  "next_obs (derive s) = next_obs s"
  "pool (derive s) = pool s"
  by (simp_all add: derive_def)

lemma getElementById_derive [simp]: "getElementById (derive s) i = getElementById s i"
  by (simp add: getElementById_def)

lemma foreign_not_doc:
  assumes "list_all foreign ls"
  shows "(t, e, UpdateCounter) \<notin> set ls" and "(t, e, InlineHandler r c) \<notin> set ls"
  using assms by (auto simp: list_all_iff)

lemma add_doc_listeners_fields:
  assumes "list_all foreign (listeners s)"
  shows "listeners (add_doc_listeners s) =
           listeners s @ removed_listeners RemoveDocListeners"
    and "cleanupFns (add_doc_listeners s) = cleanupFns s @ [RemoveDocListeners]"
    and "body (add_doc_listeners s) = body s"
    and "observer (add_doc_listeners s) = observer s"
    and "observing (add_doc_listeners s) = observing s"
  using foreign_not_doc(1) [OF assms]
  by (simp_all add: add_doc_listeners_def addEventListener_def Let_def)

lemma observe_body_fields [simp]:
  "listeners (observe_body s) = listeners s"
  "cleanupFns (observe_body s) = cleanupFns s"
  "body (observe_body s) = body s"
  "observer (observe_body s) = Some (next_obs s)"
  "observing (observe_body s) = observing s @ [next_obs s]"
  by (simp_all add: observe_body_def)

lemma filter_foreign:
  assumes "list_all foreign ls" and "\<forall>x\<in>set rs. \<not> foreign x"
  shows "filter (\<lambda>x. x \<notin> set rs) (ls @ rs) = ls"
proof -
  from assms have "filter (\<lambda>x. x \<notin> set rs) ls = ls"
    by (auto simp: filter_id_conv list_all_iff)
  then show ?thesis by simp
qed

lemma roundtrip_floating:
  assumes wf: "wf s" and idle: "idle_script s"
    and none: "getElementById s COUNTER_ID_floating = None"
  shows "restored s (deactivate (activate_floating s))"
proof (cases "has_dom s")
  case False
  with idle show ?thesis
    by (simp add: activate_floating_def restored_def deactivate_def idle_script_def)
next
  case True
  define c where "c = next_id s"
  define cn where "cn = floating_counter c"
  define a where "a = activate_floating s"
  from wf obtain b ba ks where b: "body s = Elem b ba ks"
    by (cases "body s") (auto simp: wf_def)
  from wf have fresh: "\<forall>n\<in>set (ids (body s)). n < c"
    using body_ids_all [of s] by (auto simp: wf_def list_all_iff c_def)
  then have bc: "b \<noteq> c" and cfresh: "c \<notin> set (ids (body s))" by (auto simp: b)
  from idle have obs0: "observer s = None" and cl0: "cleanupFns s = []"
    and lf: "list_all foreign (listeners s)" by (simp_all add: idle_script_def)
  from wf have ofresh: "next_obs s \<notin> set (observing s)" by (auto simp: wf_def list_all_iff)
  have none': "getElementById (derive s) COUNTER_ID_floating = None" using none by simp
  note e = ensureFloatingCounter_None [OF none']
  obtain tx where u: "updateCounter_floating (derive s) =
      setTextContent c tx (measured_floating (derive s))"
    using updateCounter_floating_write [of "derive s"] e(1) by (auto simp: c_def)
  have a_def': "a = add_doc_listeners (observe_body (updateCounter_floating (derive s)))"
    using True by (simp add: a_def activate_floating_def startObserveView_floating_def)
  have lu: "listeners (updateCounter_floating (derive s)) = listeners s"
    by (simp add: u measured_floating_fields e)
  then have lfu: "list_all foreign (listeners (observe_body (updateCounter_floating (derive s))))"
    using lf by simp
  note adl = add_doc_listeners_fields [OF lfu]
  have body_a: "body a = set_text c (Suc c) tx (append_child b cn (body s))"
    unfolding a_def' adl
    by (simp add: u measured_floating_fields e b c_def cn_def)
  have cl_a: "cleanupFns a = [RemoveCounter c, RemoveDocListeners]"
    unfolding a_def' adl
    by (simp add: u measured_floating_fields e cl0 c_def)
  have l_a: "listeners a = listeners s @ removed_listeners RemoveDocListeners"
    unfolding a_def' adl by (simp add: lu)
  have ob_a: "observer a = Some (next_obs s)" and obs_a: "observing a = observing s @ [next_obs s]"
    unfolding a_def' adl
    by (simp_all add: u measured_floating_fields e)
  have root: "nid_of (body a) \<notin> set (concat (map removed_nodes (cleanupFns a)))"
    using bc by (simp add: body_a cl_a b)
  note d = deactivate_effect [OF root]
  have "body (deactivate a) = prune (\<lambda>n. n = c) (body a)"
    unfolding d by (simp add: cl_a)
  also have "\<dots> = prune (\<lambda>n. n = c) (append_child b cn (body s))"
    unfolding body_a using bc by (intro prune_set_text) (simp_all add: b)
  also have "\<dots> = prune (\<lambda>n. n = c) (body s)"
    by (rule prune_append_child) (simp add: cn_def floating_counter_def)
  also have "\<dots> = body s"
    using cfresh by (intro prune_none) auto
  finally have 1: "body (deactivate a) = body s" .
  have 2: "listeners (deactivate a) = listeners s"
    unfolding d cl_a l_a using filter_foreign [OF lf, of "removed_listeners RemoveDocListeners"]
    by simp
  have 3: "observing (deactivate a) = observing s"
    unfolding d ob_a obs_a using ofresh by (auto simp: filter_id_conv)
  from 1 2 3 show ?thesis
    unfolding restored_def a_def [symmetric] by (simp add: deactivate_clears)
qed

lemma nid_of_append_set [simp]:
  "nid_of (set_text n f v t) = nid_of t"
  by (cases t) simp_all

lemma inline_entry_nodes:
  "list_all (inline_entry lo hi) fns \<Longrightarrow> n \<in> set (concat (map removed_nodes fns)) \<Longrightarrow> lo \<le> n \<and> n < hi"
proof (induction fns)
  case Nil
  then show ?case by simp
next
  case (Cons fn fns)
  then show ?case by (cases fn) auto
qed

lemma inline_entry_listeners:
  "list_all (inline_entry lo hi) fns \<Longrightarrow> x \<in> set (concat (map removed_listeners fns)) \<Longrightarrow>
     \<exists>t e r c. x = (t, e, InlineHandler r c) \<and> c < hi"
proof (induction fns)
  case Nil
  then show ?case by simp
next
  case (Cons fn fns)
  then show ?case by (cases fn) auto
qed

lemma inline_entry_mono:
  "list_all (inline_entry lo hi) fns \<Longrightarrow> hi \<le> hi' \<Longrightarrow> list_all (inline_entry lo hi') fns"
proof (induction fns)
  case Nil
  then show ?case by simp
next
  case (Cons fn fns)
  then show ?case by (cases fn) auto
qed

lemma update_write: "\<exists>v. update r c s = setTextContent c v s"
  by (auto simp: update_def Let_def)

lemma attach_fields:
  assumes "querySelector_in st r [Class COUNTER_CLASS] = None"
    and "\<forall>t e. (t, e, InlineHandler r (next_id st)) \<notin> set (listeners st)"
  shows "\<exists>v. body (attachCharCounterToView r st) =
            set_text (next_id st) (Suc (next_id st)) v
              (append_child r (inline_counter (next_id st)) (body st))"
    and "listeners (attachCharCounterToView r st) =
           listeners st @ removed_listeners (InlineCleanup r (next_id st))"
    and "cleanupFns (attachCharCounterToView r st) =
           cleanupFns st @ [InlineCleanup r (next_id st)]"
    and "next_id (attachCharCounterToView r st) = Suc (Suc (next_id st))"
    and "observer (attachCharCounterToView r st) = observer st"
    and "observing (attachCharCounterToView r st) = observing st"
    and "next_obs (attachCharCounterToView r st) = next_obs st"
proof -
  define c where "c = next_id st"
  define s4 where "s4 =
     addEventListener (Document, ''selectionchange'', InlineHandler r c)
       (addEventListener (OnNode r, ''mouseup'', InlineHandler r c)
         (addEventListener (OnNode r, ''keyup'', InlineHandler r c)
           (appendChild r (inline_counter c) (st\<lparr>next_id := Suc c\<rparr>))))"
  obtain v where v: "update r c s4 = setTextContent c v s4"
    using update_write by blast
  have att: "attachCharCounterToView r st =
      (setTextContent c v s4)\<lparr>cleanupFns := cleanupFns (setTextContent c v s4) @ [InlineCleanup r c]\<rparr>"
    using assms(1) by (simp add: attachCharCounterToView_def Let_def c_def [symmetric] s4_def [symmetric] v)
  from assms(2) have l4: "listeners s4 = listeners st @ removed_listeners (InlineCleanup r c)"
    by (simp add: s4_def addEventListener_def appendChild_def c_def)
  have b4: "body s4 = append_child r (inline_counter c) (body st)"
    and n4: "next_id s4 = Suc c" and c4: "cleanupFns s4 = cleanupFns st"
    and o4: "observer s4 = observer st" "observing s4 = observing st" "next_obs s4 = next_obs st"
    by (simp_all add: s4_def addEventListener_def appendChild_def)
  show "\<exists>v. body (attachCharCounterToView r st) =
            set_text (next_id st) (Suc (next_id st)) v
              (append_child r (inline_counter (next_id st)) (body st))"
    unfolding att by (auto simp: b4 n4 c_def)
  show "listeners (attachCharCounterToView r st) =
           listeners st @ removed_listeners (InlineCleanup r (next_id st))"
    unfolding att by (simp add: l4 c_def)
  show "cleanupFns (attachCharCounterToView r st) =
           cleanupFns st @ [InlineCleanup r (next_id st)]"
    unfolding att by (simp add: c4 c_def)
  show "next_id (attachCharCounterToView r st) = Suc (Suc (next_id st))"
    unfolding att by (simp add: n4 c_def)
  show "observer (attachCharCounterToView r st) = observer st"
    "observing (attachCharCounterToView r st) = observing st"
    "next_obs (attachCharCounterToView r st) = next_obs st"
    unfolding att by (simp_all add: o4)
qed

lemma attach_skip:
  "querySelector_in st r [Class COUNTER_CLASS] \<noteq> None \<Longrightarrow> attachCharCounterToView r st = st"
  by (simp add: attachCharCounterToView_def)

lemma attached_attach:
  assumes inv: "attached s st" and lf: "list_all foreign (listeners s)"
  shows "attached s (attachCharCounterToView r st)"
proof (cases "querySelector_in st r [Class COUNTER_CLASS] = None")
  case False
  with inv show ?thesis by (simp add: attach_skip)
next
  case True
  define c where "c = next_id st"
  define C where "C = concat (map removed_nodes (cleanupFns st))"
  from inv have a: "prune (\<lambda>n. n \<in> set C) (body st) = body s"
    and b: "listeners st = listeners s @ concat (map removed_listeners (cleanupFns st))"
    and e: "list_all (inline_entry (next_id s) c) (cleanupFns st)"
    and d: "\<forall>n\<in>set (ids (body st)). n < c"
    and r: "nid_of (body st) = nid_of (body s)"
    and o: "observer st = observer s" "observing st = observing s" "next_obs st = next_obs s"
    and g: "next_id s \<le> c"
    by (simp_all add: attached_def C_def c_def list_all_iff)
  have notin: "\<forall>t e. (t, e, InlineHandler r (next_id st)) \<notin> set (listeners st)"
  proof (intro allI notI)
    fix t e assume "(t, e, InlineHandler r (next_id st)) \<in> set (listeners st)"
    then consider "(t, e, InlineHandler r c) \<in> set (listeners s)"
      | "(t, e, InlineHandler r c) \<in> set (concat (map removed_listeners (cleanupFns st)))"
      unfolding b c_def by auto
    then show False
    proof cases
      case 1
      with lf show False by (auto simp: list_all_iff)
    next
      case 2
      from inline_entry_listeners [OF e 2] show False by auto
    qed
  qed
  note f = attach_fields [OF True notin]
  from f(1) obtain v where body': "body (attachCharCounterToView r st) =
            set_text c (Suc c) v (append_child r (inline_counter c) (body st))"
    unfolding c_def by blast
  let ?st = "attachCharCounterToView r st"
  have C': "concat (map removed_nodes (cleanupFns ?st)) = C @ [c]"
    by (simp add: f(3) C_def c_def)
  from d have root: "nid_of (body st) \<noteq> c" using nid_in_ids [of "body st"] by auto
  have "prune (\<lambda>n. n \<in> set (C @ [c])) (body ?st) =
        prune (\<lambda>n. n \<in> set (C @ [c])) (append_child r (inline_counter c) (body st))"
    unfolding body' using root by (intro prune_set_text) simp_all
  also have "\<dots> = prune (\<lambda>n. n \<in> set (C @ [c])) (body st)"
    by (rule prune_append_child) (simp add: inline_counter_def)
  also have "\<dots> = prune (\<lambda>n. n \<in> set C) (body st)"
    using d by (intro prune_cong) auto
  finally have 1: "prune (\<lambda>n. n \<in> set (concat (map removed_nodes (cleanupFns ?st)))) (body ?st) = body s"
    unfolding C' using a by simp
  have 2: "listeners ?st = listeners s @ concat (map removed_listeners (cleanupFns ?st))"
    by (simp add: f(2,3) b)
  have 3: "list_all (inline_entry (next_id s) (next_id ?st)) (cleanupFns ?st)"
    using inline_entry_mono [OF e, of "Suc (Suc c)"] g by (simp add: f(3,4) c_def [symmetric])
  have 4: "list_all (\<lambda>n. n < next_id ?st) (ids (body ?st))"
  proof -
    have "set (ids (body ?st)) \<subseteq> set (ids (body st)) \<union> {c, Suc c}"
      unfolding body' using ids_set_text [of c "Suc c" v "append_child r (inline_counter c) (body st)"]
        ids_append_child [of r "inline_counter c" "body st"]
      by (auto simp: inline_counter_def)
    with d show ?thesis by (fastforce simp: list_all_iff f(4) c_def [symmetric])
  qed
  have 5: "nid_of (body ?st) = nid_of (body s)" by (simp add: body' r)
  from 1 2 3 4 5 o g show ?thesis
    by (simp add: attached_def f(4,5,6,7) c_def [symmetric])
qed

lemma attached_attach_all:
  "attached s st \<Longrightarrow> list_all foreign (listeners s) \<Longrightarrow> attached s (attach_all rs st)"
  unfolding attach_all_def
  by (induction rs arbitrary: st) (simp_all add: attached_attach)

lemma attached_initial:
  assumes "wf s" and "idle_script s"
  shows "attached s s"
proof -
  from assms(1) have "list_all (\<lambda>n. n < next_id s) (ids (body s))"
    using body_ids_all [of s] by (auto simp: wf_def list_all_iff)
  with assms(2) show ?thesis
    by (simp add: attached_def idle_script_def prune_none)
qed

lemma roundtrip_inline:
  assumes wf: "wf s" and idle: "idle_script s"
  shows "restored s (deactivate (activate_inline s))"
proof (cases "has_dom s")
  case False
  with idle show ?thesis
    by (simp add: activate_inline_def restored_def deactivate_def idle_script_def)
next
  case True
  define st where "st = attach_all (findContentRoots s) s"
  define a where "a = activate_inline s"
  from idle have lf: "list_all foreign (listeners s)" and ob0: "observer s = None"
    by (simp_all add: idle_script_def)
  have inv: "attached s st"
    unfolding st_def by (intro attached_attach_all attached_initial wf idle lf)
  have a': "a = observe_body st"
    using True by (simp add: a_def activate_inline_def startObserveView_inline_def st_def)
  define C where "C = concat (map removed_nodes (cleanupFns st))"
  define L where "L = concat (map removed_listeners (cleanupFns st))"
  from inv have p: "prune (\<lambda>n. n \<in> set C) (body st) = body s"
    and l: "listeners st = listeners s @ L"
    and e: "list_all (inline_entry (next_id s) (next_id st)) (cleanupFns st)"
    and r: "nid_of (body st) = nid_of (body s)"
    and o: "observing st = observing s" "next_obs st = next_obs s"
    by (simp_all add: attached_def C_def L_def)
  from wf have rootlt: "nid_of (body s) < next_id s"
    using body_ids_all [of s] nid_in_ids [of "body s"] by (auto simp: wf_def list_all_iff)
  from wf have ofresh: "next_obs s \<notin> set (observing s)" by (auto simp: wf_def list_all_iff)
  have root: "nid_of (body a) \<notin> set (concat (map removed_nodes (cleanupFns a)))"
  proof
    assume "nid_of (body a) \<in> set (concat (map removed_nodes (cleanupFns a)))"
    then have "nid_of (body s) \<in> set (concat (map removed_nodes (cleanupFns st)))"
      by (simp add: a' r)
    from inline_entry_nodes [OF e this] rootlt show False by simp
  qed
  note d = deactivate_effect [OF root]
  have ca: "cleanupFns a = cleanupFns st" "body a = body st" "listeners a = listeners st"
    "observer a = Some (next_obs s)" "observing a = observing s @ [next_obs s]"
    by (simp_all add: a' o)
  have 1: "body (deactivate a) = body s"
    unfolding d ca C_def [symmetric] by (rule p)
  have nf: "\<forall>x\<in>set L. \<not> foreign x"
    using inline_entry_listeners [OF e] unfolding L_def by fastforce
  have 2: "listeners (deactivate a) = listeners s"
    unfolding d ca L_def [symmetric] l by (rule filter_foreign [OF lf nf])
  have 3: "observing (deactivate a) = observing s"
    unfolding d ca using ofresh by (auto simp: filter_id_conv)
  from 1 2 3 show ?thesis
    unfolding restored_def a_def [symmetric] by (simp add: deactivate_clears)
qed

lemma nid_of_prepend_child [simp]: "nid_of (prepend_child p c t) = nid_of t"
  by (cases t) simp_all

lemma prune_prepend_child: "P (nid_of c) \<Longrightarrow> prune P (prepend_child r c t) = prune P t"
proof (induction t)
  case (Elem m a ks)
  have "map (prune P) (filter (\<lambda>k. \<not> P (nid_of k)) (map (prepend_child r c) ks)) =
        map (prune P) (filter (\<lambda>k. \<not> P (nid_of k)) ks)"
    using Elem.IH Elem.prems by (induction ks) auto
  with Elem.prems show ?case by simp
next
  case (Text m d)
  then show ?case by simp
qed

lemma ensureCounterElement_new_fields:
  assumes "getElementById s COUNTER_ID_anchored = None"
    and "findSystemVersionElement s = Some v" and "has_parentElement s v"
  shows "listeners (snd (ensureCounterElement s)) = listeners s"
    and "observing (snd (ensureCounterElement s)) = observing s"
    and "observer (snd (ensureCounterElement s)) = observer s"
    and "next_obs (snd (ensureCounterElement s)) = next_obs s"
  using assms
  by (simp_all add: ensureCounterElement_def Let_def appendChild_def insertFirst_def)

lemma updateCounter_anchored_skip:
  assumes "ensureCounterElement (measured_anchored s) = (None, measured_anchored s)"
  shows "updateCounter_anchored s = measured_anchored s"
  by (simp add: updateCounter_anchored_measured assms)

lemma updateCounter_anchored_write:
  assumes "fst (ensureCounterElement (measured_anchored s)) = Some c"
  shows "\<exists>v. updateCounter_anchored s =
      setTextContent c v (snd (ensureCounterElement (measured_anchored s)))"
proof -
  obtain s2 where "ensureCounterElement (measured_anchored s) = (Some c, s2)"
    using assms by (cases "ensureCounterElement (measured_anchored s)") auto
  then show ?thesis
    by (auto simp: updateCounter_anchored_measured write_counts_def Let_def)
qed

lemma measured_anchored_fields [simp]:
  "body (measured_anchored s) = body s"
  "pool (measured_anchored s) = pool s"
  "next_id (measured_anchored s) = next_id s"
  "cleanupFns (measured_anchored s) = cleanupFns s"
  "listeners (measured_anchored s) = listeners s"
  "observing (measured_anchored s) = observing s"
  "observer (measured_anchored s) = observer s"
  "next_obs (measured_anchored s) = next_obs s"
  "getElementById (measured_anchored s) i = getElementById s i"
  by (simp_all add: measured_anchored_def)

lemma roundtrip_anchored:
  assumes wf: "wf s" and idle: "idle_script s"
    and none: "getElementById s COUNTER_ID_anchored = None"
  shows "restored s (deactivate (activate_anchored s))"
proof (cases "has_dom s")
  case False
  with idle show ?thesis
    by (simp add: activate_anchored_def restored_def deactivate_def idle_script_def)
next
  case True
  define c where "c = next_id s"
  define cn where "cn = anchored_counter c"
  define m where "m = measured_anchored (derive s)"
  define u where "u = updateCounter_anchored (derive s)"
  define a where "a = activate_anchored s"
  from wf have fresh: "\<forall>n\<in>set (ids (body s)). n < c"
    using body_ids_all [of s] by (auto simp: wf_def list_all_iff c_def)
  then have rootc: "nid_of (body s) \<noteq> c" and cfresh: "c \<notin> set (ids (body s))"
    using nid_in_ids [of "body s"] by auto
  from idle have cl0: "cleanupFns s = []"
    and lf: "list_all foreign (listeners s)" by (simp_all add: idle_script_def)
  from wf have ofresh: "next_obs s \<notin> set (observing s)" by (auto simp: wf_def list_all_iff)
  have nonem: "getElementById m COUNTER_ID_anchored = None"
    using none by (simp add: m_def)
  have a_def': "a = add_doc_listeners (observe_body u)"
    using True by (simp add: a_def u_def activate_anchored_def startObserveView_anchored_def)
  have "\<exists>C. set C \<subseteq> {c} \<and> cleanupFns u = map RemoveCounter C \<and>
      prune (\<lambda>n. n \<in> set C) (body u) = body s \<and> nid_of (body u) = nid_of (body s) \<and>
      listeners u = listeners s \<and> observing u = observing s \<and> next_obs u = next_obs s"
  proof (cases "fst (ensureCounterElement m)")
    case None
    then have "ensureCounterElement m = (None, m)"
      by (auto simp: ensureCounterElement_def Let_def split: option.splits if_splits)
    then have "u = m" unfolding u_def m_def by (rule updateCounter_anchored_skip)
    then show ?thesis
      by (intro exI [of _ "[]"]) (simp add: m_def cl0 prune_none)
  next
    case (Some c')
    from Some have "ensureCounterElement m \<noteq> (None, m)" by auto
    with ensureCounterElement_skip [OF nonem]
    have "\<not> (findSystemVersionElement m = None \<or>
         (\<exists>v. findSystemVersionElement m = Some v \<and> \<not> has_parentElement m v))"
      by blast
    then obtain v where v: "findSystemVersionElement m = Some v" and p: "has_parentElement m v"
      by (cases "findSystemVersionElement m") auto
    note new = ensureCounterElement_new [OF nonem v p]
    note newf = ensureCounterElement_new_fields [OF nonem v p]
    from Some new(1) have c': "c' = c" by (simp add: m_def c_def)
    obtain tx where tx: "u = setTextContent c tx (snd (ensureCounterElement m))"
      using updateCounter_anchored_write [of "derive s" c] Some c'
      unfolding u_def m_def by auto
    have bu: "body u = set_text c (Suc c) tx
        (if has_firstChild (m\<lparr>next_id := Suc (next_id m)\<rparr>) v
         then prepend_child v cn (body s) else append_child v cn (body s))"
      unfolding tx by (simp add: new(2,4)) (simp add: m_def c_def cn_def)
    have 1: "prune (\<lambda>n. n \<in> set [c]) (body u) = body s"
    proof -
      have "prune (\<lambda>n. n \<in> set [c]) (body u) =
          prune (\<lambda>n. n \<in> set [c]) (if has_firstChild (m\<lparr>next_id := Suc (next_id m)\<rparr>) v
         then prepend_child v cn (body s) else append_child v cn (body s))"
        unfolding bu using rootc by (intro prune_set_text) simp_all
      also have "\<dots> = prune (\<lambda>n. n \<in> set [c]) (body s)"
        by (simp add: prune_prepend_child prune_append_child cn_def anchored_counter_def)
      also have "\<dots> = body s" using cfresh by (intro prune_none) auto
      finally show ?thesis .
    qed
    have 2: "cleanupFns u = map RemoveCounter [c]"
      unfolding tx by (simp add: new(3)) (simp add: m_def cl0 c_def)
    have 3: "nid_of (body u) = nid_of (body s)" by (simp add: bu)
    have 4: "listeners u = listeners s" "observing u = observing s" "next_obs u = next_obs s"
      unfolding tx by (simp_all add: newf) (simp_all add: m_def)
    from 1 2 3 4 show ?thesis by (intro exI [of _ "[c]"]) simp
  qed
  then obtain C where C: "set C \<subseteq> {c}" "cleanupFns u = map RemoveCounter C"
    "prune (\<lambda>n. n \<in> set C) (body u) = body s" "nid_of (body u) = nid_of (body s)"
    "listeners u = listeners s" "observing u = observing s" "next_obs u = next_obs s"
    by blast
  from lf C(5) have lfu: "list_all foreign (listeners (observe_body u))" by simp
  note adl = add_doc_listeners_fields [OF lfu]
  have ca: "cleanupFns a = map RemoveCounter C @ [RemoveDocListeners]" "body a = body u"
    "listeners a = listeners s @ removed_listeners RemoveDocListeners"
    "observer a = Some (next_obs s)" "observing a = observing s @ [next_obs s]"
    unfolding a_def' adl by (simp_all add: C)
  have rn: "concat (map removed_nodes (cleanupFns a)) = C"
    unfolding ca by (induction C) simp_all
  have rl: "concat (map removed_listeners (cleanupFns a)) = removed_listeners RemoveDocListeners"
    unfolding ca by (induction C) simp_all
  have root: "nid_of (body a) \<notin> set (concat (map removed_nodes (cleanupFns a)))"
    unfolding rn using C(1,4) rootc by (auto simp: ca)
  note d = deactivate_effect [OF root]
  have 1: "body (deactivate a) = body s"
    unfolding d rn ca(2) by (rule C(3))
  have 2: "listeners (deactivate a) = listeners s"
    unfolding d rl ca(3) by (rule filter_foreign [OF lf]) simp
  have 3: "observing (deactivate a) = observing s"
    unfolding d ca using ofresh by (auto simp: filter_id_conv)
  from 1 2 3 show ?thesis
    unfolding restored_def a_def [symmetric] by (simp add: deactivate_clears)
qed

section \<open>The inline counter inside its root\<close>

text \<open>
  Writing into a counter that was appended below a root amounts to appending the
  counter with its new content, so the root's text always ends with the counter's.
\<close>

lemma set_text_append_child:
  assumes "c \<notin> set (ids t)"
  shows "set_text c f v (append_child r (Elem c ca K0) t) =
         append_child r (Elem c ca (if v = [] then [] else [Text f v])) t"
  using assms
proof (induction t)
  case (Text m d)
  then show ?case by simp
next
  case (Elem m a ks)
  then have mc: "m \<noteq> c" by simp
  show ?case
  proof (cases "m = r")
    case True
    have "map (set_text c f v) ks = ks"
      using Elem.prems by (intro map_idI set_text_absent) auto
    with True mc show ?thesis by simp
  next
    case False
    have "map (set_text c f v \<circ> append_child r (Elem c ca K0)) ks =
          map (append_child r (Elem c ca (if v = [] then [] else [Text f v]))) ks"
      using Elem.IH Elem.prems by (intro map_cong) auto
    with False mc show ?thesis by simp
  qed
qed

lemma find_nid_append_child:
  "find (\<lambda>x. nid_of x = r) (nodes (append_child r x t)) =
     map_option (add_last x) (find (\<lambda>x. nid_of x = r) (nodes t))"
proof (induction t)
  case (Elem m a ks)
  have "find (\<lambda>x. nid_of x = r) (concat (map nodes (map (append_child r x) js))) =
        map_option (add_last x) (find (\<lambda>x. nid_of x = r) (concat (map nodes js)))"
    if "set js \<subseteq> set ks" for js
    using that
  proof (induction js)
    case Nil
    then show ?case by simp
  next
    case (Cons j js)
    then show ?case
      by (simp add: find_app Elem.IH split: option.splits)
  qed
  then show ?case by simp
next
  case (Text m d)
  then show ?case by simp
qed

lemma find_forest_append_child:
  "find (\<lambda>x. nid_of x = r) (concat (map nodes (map (append_child r x) ts))) =
     map_option (add_last x) (find (\<lambda>x. nid_of x = r) (concat (map nodes ts)))"
  by (induction ts) (simp_all add: find_app find_nid_append_child split: option.splits)

lemma find_new_append:
  assumes "\<forall>y\<in>set (nodes t). \<not> P y" and "P x"
    and "\<And>m a ks ks'. P (Elem m a ks) = P (Elem m a ks')"
  shows "find P (nodes (append_child v x t)) =
     (if \<exists>y\<in>set (nodes t). is_elem y \<and> nid_of y = v then Some x else None)"
  using assms(1)
proof (induction t)
  case (Text m d)
  then show ?case by simp
next
  case (Elem m a ks)
  have c: "nodes x = x # descendants x" by (cases x) simp_all
  from Elem.prems have root: "\<not> P (Elem m a ks')" for ks'
    using assms(3) [of m a ks' ks] by simp
  show ?case
  proof (cases "m = v")
    case True
    from Elem.prems have "find P (concat (map nodes ks)) = None"
      by (auto simp: find_None_iff)
    with True root assms(2) show ?thesis by (simp add: c find_app)
  next
    case False
    have kids: "find P (concat (map nodes (map (append_child v x) js))) =
        (if \<exists>k\<in>set js. \<exists>y\<in>set (nodes k). is_elem y \<and> nid_of y = v then Some x else None)"
      if "set js \<subseteq> set ks" for js
      using that
    proof (induction js)
      case Nil
      then show ?case by simp
    next
      case (Cons j js)
      from Cons.prems have j: "j \<in> set ks" by simp
      with Elem.prems have "\<forall>y\<in>set (nodes j). \<not> P y" by auto
      from Elem.IH [OF j this] Cons show ?case
        by (simp add: find_app)
    qed
    with False kids [of ks] root show ?thesis by auto
  qed
qed

lemma find_new_forest:
  assumes "\<forall>t\<in>set ts. \<forall>y\<in>set (nodes t). \<not> P y" and "P x"
    and "\<And>m a ks ks'. P (Elem m a ks) = P (Elem m a ks')"
  shows "find P (concat (map nodes (map (append_child v x) ts))) =
     (if \<exists>t\<in>set ts. \<exists>y\<in>set (nodes t). is_elem y \<and> nid_of y = v then Some x else None)"
  using assms(1)
proof (induction ts)
  case Nil
  then show ?case by simp
next
  case (Cons t ts)
  then have "\<forall>y\<in>set (nodes t). \<not> P y" by simp
  from find_new_append [of t P x v, OF this assms(2,3)] Cons show ?case
    by (simp add: find_app)
qed

lemma hostsI:
  "trees st = map (append_child r (Elem c inline_attrs K)) (trees s) @ E \<Longrightarrow>
   concat (map text_of K) \<noteq> [] \<Longrightarrow> hosts s r c st"
  unfolding hosts_def by blast

lemma trees_setTextContent:
  "trees (setTextContent n v s) = map (set_text n (next_id s) v) (trees s) @ children_of s n"
  by (simp add: trees_def setTextContent_def)

lemma trees_appendChild:
  "trees (appendChild p c s) = map (append_child p c) (trees s)"
  by (simp add: trees_def appendChild_def)

lemma trees_selection [simp]: "trees (s\<lparr>getSelection := sl\<rparr>) = trees s"
  by (simp add: trees_def)

lemma update_write_nonempty: "\<exists>v. v \<noteq> [] \<and> update r c s = setTextContent c v s"
  by (auto simp: update_def Let_def text_selected_def text_total_def lbl_selected_def lbl_total_def)

lemma map_set_text_append:
  assumes "c \<notin> set (concat (map ids ts))"
  shows "map (set_text c f v) (map (append_child r (Elem c ca K0)) ts) =
         map (append_child r (Elem c ca (if v = [] then [] else [Text f v]))) ts"
  using assms by (induction ts) (simp_all add: set_text_append_child)

lemma hosts_attach:
  assumes "next_id s \<notin> set (all_ids s)"
    and "querySelector_in s r [Class COUNTER_CLASS] = None"
  shows "hosts s r (next_id s) (attachCharCounterToView r s)"
proof -
  define c where "c = next_id s"
  define s4 where "s4 =
     addEventListener (Document, ''selectionchange'', InlineHandler r c)
       (addEventListener (OnNode r, ''mouseup'', InlineHandler r c)
         (addEventListener (OnNode r, ''keyup'', InlineHandler r c)
           (appendChild r (inline_counter c) (s\<lparr>next_id := Suc c\<rparr>))))"
  obtain v where v: "v \<noteq> []" "update r c s4 = setTextContent c v s4"
    using update_write_nonempty by blast
  have att: "attachCharCounterToView r s =
      (setTextContent c v s4)\<lparr>cleanupFns := cleanupFns (setTextContent c v s4) @ [InlineCleanup r c]\<rparr>"
    using assms(2) by (simp add: attachCharCounterToView_def Let_def c_def [symmetric] s4_def [symmetric] v)
  have t4: "trees s4 = map (append_child r (inline_counter c)) (trees s)"
    by (simp add: s4_def trees_appendChild) (simp add: trees_def)
  have "trees (attachCharCounterToView r s) =
      map (set_text c (next_id s4) v) (trees s4) @ children_of s4 c"
    unfolding att using trees_setTextContent [of c v s4] by (simp add: trees_def)
  also have "map (set_text c (next_id s4) v) (trees s4) =
      map (append_child r (Elem c inline_attrs [Text (next_id s4) v])) (trees s)"
    unfolding t4 inline_counter_def
    using map_set_text_append [of c "trees s" "next_id s4" v r] assms(1) v(1)
    by (simp add: all_ids_def c_def)
  finally have "trees (attachCharCounterToView r s) =
      map (append_child r (Elem c inline_attrs [Text (next_id s4) v])) (trees s) @
      children_of s4 c" .
  then show ?thesis
    unfolding c_def [symmetric] by (rule hostsI) (simp add: v(1))
qed

lemma hosts_update:
  assumes "c \<notin> set (all_ids s)" and "hosts s r c st"
  shows "hosts s r c (update r c (st\<lparr>getSelection := sl\<rparr>))"
proof -
  define ca where "ca = inline_attrs"
  from assms(2) obtain K E where
    t: "trees st = map (append_child r (Elem c ca K)) (trees s) @ E"
    unfolding hosts_def ca_def by blast
  obtain v where v: "v \<noteq> []"
    "update r c (st\<lparr>getSelection := sl\<rparr>) = setTextContent c v (st\<lparr>getSelection := sl\<rparr>)"
    using update_write_nonempty by blast
  define E' where "E' = map (set_text c (next_id st) v) E @
      children_of (st\<lparr>getSelection := sl\<rparr>) c"
  have m: "map (set_text c (next_id st) v) (map (append_child r (Elem c ca K)) (trees s)) =
      map (append_child r (Elem c ca [Text (next_id st) v])) (trees s)"
    using map_set_text_append [of c "trees s" "next_id st" v r] assms(1) v(1)
    by (simp add: all_ids_def)
  have "trees (update r c (st\<lparr>getSelection := sl\<rparr>)) =
        map (set_text c (next_id st) v) (trees st) @ children_of (st\<lparr>getSelection := sl\<rparr>) c"
    unfolding v using trees_setTextContent [of c v "st\<lparr>getSelection := sl\<rparr>"] by simp
  also have "\<dots> = map (append_child r (Elem c ca [Text (next_id st) v])) (trees s) @ E'"
    unfolding t E'_def using m by simp
  finally have "trees (update r c (st\<lparr>getSelection := sl\<rparr>)) =
      map (append_child r (Elem c inline_attrs [Text (next_id st) v])) (trees s) @ E'"
    unfolding ca_def .
  then show ?thesis by (rule hostsI) (simp add: v(1))
qed

lemma hosts_later:
  assumes "c \<notin> set (all_ids s)" and "hosts s r c st"
  shows "hosts s r c (later_renders r c sels st)"
  using assms(2) unfolding later_renders_def
  by (induction sels arbitrary: st) (simp_all add: hosts_update [OF assms(1)])

lemma hosts_text:
  assumes "c \<notin> set (all_ids s)" and "is_element s r" and "hosts s r c st"
  shows "textContent st r = textContent s r @ textContent st c" and "textContent st c \<noteq> []"
    and "lookup st c \<noteq> None"
    and "querySelector_in st r [Class COUNTER_CLASS] \<noteq> None"
proof -
  define ca where "ca = inline_attrs"
  from assms(3) obtain K E where
    t: "trees st = map (append_child r (Elem c ca K)) (trees s) @ E"
    and K: "concat (map text_of K) \<noteq> []"
    unfolding hosts_def ca_def by blast
  from assms(2) obtain m a ks where m: "lookup s r = Some (Elem m a ks)"
    by (auto simp: is_element_def split: option.splits dnode.splits)
  from find_nid [OF m [unfolded lookup_def]] have "m = r" by simp
  with m have r: "lookup s r = Some (Elem r a ks)" by simp
  have "find (\<lambda>x. nid_of x = r)
      (concat (map nodes (map (append_child r (Elem c ca K)) (trees s)))) =
      Some (Elem r a (ks @ [Elem c ca K]))"
    using r unfolding lookup_def find_forest_append_child by simp
  then have 1: "lookup st r = Some (Elem r a (ks @ [Elem c ca K]))"
    unfolding lookup_def t map_append concat_append find_app by simp
  from r have "Elem r a ks \<in> set (concat (map nodes (trees s)))"
    unfolding lookup_def by (auto dest: find_in_set)
  then have ex: "\<exists>t\<in>set (trees s). \<exists>y\<in>set (nodes t). is_elem y \<and> nid_of y = r"
    by force
  from assms(1) have no: "\<forall>t\<in>set (trees s). \<forall>y\<in>set (nodes t). \<not> nid_of y = c"
    by (auto simp: all_ids_def ids_def)
  have "find (\<lambda>x. nid_of x = c)
      (concat (map nodes (map (append_child r (Elem c ca K)) (trees s)))) = Some (Elem c ca K)"
    using find_new_forest [of "trees s" "\<lambda>x. nid_of x = c" "Elem c ca K" r, OF no] ex
    by simp
  then have 2: "lookup st c = Some (Elem c ca K)"
    unfolding lookup_def t map_append concat_append find_app by simp
  from 1 2 r show "textContent st r = textContent s r @ textContent st c"
    by (simp add: textContent_def)
  from 2 K show "textContent st c \<noteq> []" by (simp add: textContent_def)
  from 2 show "lookup st c \<noteq> None" by simp
  have "node_matches [Class COUNTER_CLASS] (Elem c ca K)"
    by (simp add: ca_def inline_attrs_def)
  then have "find (node_matches [Class COUNTER_CLASS]) (concat (map nodes ks) @ nodes (Elem c ca K)) \<noteq> None"
    by (auto simp: find_None_iff)
  then show "querySelector_in st r [Class COUNTER_CLASS] \<noteq> None"
    by (simp add: querySelector_in_def 1)
qed


section \<open>Surface and life cycle\<close>



text \<open>
  C6, as the code has it. From a well-formed state in which the script is idle,
  \<open>activate\<close> followed by \<open>deactivate\<close> gives back the document, the listeners and
  the observers there were, and leaves no observer and no registry entry: in the inline
  variant always, in the floating and the anchored variant when the document holds no
  element with the counter's id.
\<close>

theorem activate_deactivate_roundtrip:
  "wf s \<and> idle_script s \<longrightarrow>
     (getElementById s COUNTER_ID_floating = None \<longrightarrow>
        restored s (deactivate (activate_floating s))) \<and>
     (getElementById s COUNTER_ID_anchored = None \<longrightarrow>
        restored s (deactivate (activate_anchored s))) \<and>
     restored s (deactivate (activate_inline s))"
  using roundtrip_floating [of s] roundtrip_anchored [of s] roundtrip_inline [of s]
  by blast

theorem activate_deactivate_roundtrip_witness:
  "wf page_version \<and> idle_script page_version \<and>
   getElementById page_version COUNTER_ID_floating = None \<and>
   getElementById page_version COUNTER_ID_anchored = None \<and>
   body (activate_floating page_version) \<noteq> body page_version \<and>
   body (activate_anchored page_version) \<noteq> body page_version \<and>
   body (activate_inline page_version) \<noteq> body page_version \<and>
   restored page_version (deactivate (activate_floating page_version)) \<and>
   restored page_version (deactivate (activate_anchored page_version)) \<and>
   restored page_version (deactivate (activate_inline page_version))"
proof -
  have a: "wf page_version" by code_simp
  have b: "idle_script page_version" by code_simp
  have c: "getElementById page_version COUNTER_ID_floating = None" by code_simp
  have d: "getElementById page_version COUNTER_ID_anchored = None" by code_simp
  have e: "body (activate_floating page_version) \<noteq> body page_version" by code_simp
  have f: "body (activate_anchored page_version) \<noteq> body page_version" by code_simp
  have g: "body (activate_inline page_version) \<noteq> body page_version" by code_simp
  from activate_deactivate_roundtrip [of page_version] a b c d e f g show ?thesis by blast
qed

text \<open>
  On a page that already holds an empty element with the floating counter's id,
  activation writes the count into that element and registers no removal for it: after
  deactivation the document has five nodes where it had four.
\<close>

theorem activate_deactivate_roundtrip_counterexample:
  "wf page_preexisting \<and> idle_script page_preexisting \<and>
   length (nodes (body page_preexisting)) = 4 \<and>
   length (nodes (body (deactivate (activate_floating page_preexisting)))) = 5 \<and>
   body (deactivate (activate_floating page_preexisting)) \<noteq> body page_preexisting"
  by code_simp

text \<open>
  C10. In the inline variant the counter is a child of its content root, and a render
  reads the text of the whole root. After an attachment that made a counter, and any
  number of renders, the counter's text is not empty, the root's text is the page text
  followed by the counter's text, and the next render reports as total the length of
  the page text plus the length of the text the counter displayed before.
\<close>

theorem inline_total_counts_counter:
  assumes "wf s" and "is_element s r" and "querySelector_in s r [Class COUNTER_CLASS] = None"
  shows "textContent (inline_session r sels s) (next_id s) \<noteq> [] \<and>
    textContent (inline_session r sels s) r =
      textContent s r @ textContent (inline_session r sels s) (next_id s) \<and>
    textContent (inline_session r (sels @ [sl]) s) (next_id s) =
      (if selected_inline r ((inline_session r sels s)\<lparr>getSelection := sl\<rparr>) \<noteq> []
       then text_selected
         (length (selected_inline r ((inline_session r sels s)\<lparr>getSelection := sl\<rparr>)))
         (length (textContent s r) + length (textContent (inline_session r sels s) (next_id s)))
       else text_total
         (length (textContent s r) + length (textContent (inline_session r sels s) (next_id s))))"
proof -
  define c where "c = next_id s"
  define st where "st = inline_session r sels s"
  from assms(1) have fresh: "c \<notin> set (all_ids s)"
    by (auto simp: wf_def list_all_iff c_def)
  have h: "hosts s r c st"
    unfolding st_def inline_session_def c_def [symmetric]
    using hosts_attach [OF fresh [unfolded c_def] assms(3)]
    by (intro hosts_later [OF fresh]) (simp add: c_def)
  note ht = hosts_text [OF fresh assms(2) h]
  have tc: "textContent (st\<lparr>getSelection := sl\<rparr>) n = textContent st n" for n
    by (simp add: textContent_def lookup_def)
  have lk: "lookup (st\<lparr>getSelection := sl\<rparr>) c \<noteq> None"
    using ht(3) by (simp add: lookup_def)
  have nx: "inline_session r (sels @ [sl]) s = update r c (st\<lparr>getSelection := sl\<rparr>)"
    by (simp add: inline_session_def later_renders_def st_def c_def)
  from render_inline [OF lk, of r] ht(1,2) show ?thesis
    unfolding c_def [symmetric] st_def [symmetric] nx by (simp add: tc)
qed

theorem inline_total_counts_counter_witness:
  "wf page_hello \<and> is_element page_hello 1 \<and>
   querySelector_in page_hello 1 [Class COUNTER_CLASS] = None \<and>
   length (textContent page_hello 1) = 11 \<and>
   textContent (inline_session 1 [None] page_hello) 5 = text_total 23 \<and>
   length (textContent (inline_session 1 [None] page_hello) 5) = 12 \<and>
   textContent (inline_session 1 [None, None] page_hello) 5 = text_total 23"
proof -
  have a: "wf page_hello" by code_simp
  have b: "is_element page_hello 1" by code_simp
  have c: "querySelector_in page_hello 1 [Class COUNTER_CLASS] = None" by code_simp
  have d: "length (textContent page_hello 1) = 11" by code_simp
  have e: "length (textContent (inline_session 1 [None] page_hello) 5) = 12" by code_simp
  have f: "selected_inline 1 ((inline_session 1 [None] page_hello)\<lparr>getSelection := None\<rparr>) = []"
    by code_simp
  have g: "next_id page_hello = 5" by code_simp
  have h: "textContent (inline_session 1 [None] page_hello) 5 = text_total 23" by code_simp
  from inline_total_counts_counter [OF a b c, of "[None]" None]
  have "textContent (inline_session 1 ([None] @ [None]) page_hello) (next_id page_hello) =
      text_total (length (textContent page_hello 1) +
        length (textContent (inline_session 1 [None] page_hello) (next_id page_hello)))"
    by (simp only: f simp_thms if_False)
  then have "textContent (inline_session 1 [None, None] page_hello) 5 = text_total 23"
    by (simp only: g d e append.simps) simp
  with a b c d e h show ?thesis by blast
qed

text \<open>
  Writing the counter text detaches the children of the counter element without
  destroying them: a remembered root among them is out of the document, and the next
  render still measures its text.
\<close>

lemma detached_root_measured:
  "idle_script page_root_in_counter \<and>
   contentRoots (activate_floating page_root_in_counter) = [2] \<and>
   querySelectorAll (activate_floating page_root_in_counter) content_selectors = [] \<and>
   children_of page_root_in_counter 1 = pool (activate_floating page_root_in_counter) \<and>
   fullText (activate_floating page_root_in_counter) = ascii ''hello'' \<and>
   textContent (updateCounter_floating (activate_floating page_root_in_counter)) 1 = text_total 5"
  by code_simp

text \<open>The ghost log apart, \<open>deactivate\<close> is the teardown closures run in order.\<close>

lemma lookup_invoked [simp]: "lookup (s\<lparr>invoked := x\<rparr>) n = lookup s n"
  by (simp add: lookup_def trees_def)

lemma removeNode_invoked: "removeNode n (s\<lparr>invoked := x\<rparr>) = (removeNode n s)\<lparr>invoked := x\<rparr>"
  by (simp add: removeNode_def split: option.splits)

lemma removeEventListener_invoked:
  "removeEventListener l (s\<lparr>invoked := x\<rparr>) = (removeEventListener l s)\<lparr>invoked := x\<rparr>"
  by (simp add: removeEventListener_def)

lemma run_cleanup_invoked: "run_cleanup fn (s\<lparr>invoked := x\<rparr>) = (run_cleanup fn s)\<lparr>invoked := x\<rparr>"
  by (cases fn) (simp_all add: removeNode_invoked removeEventListener_invoked)

lemma foldl_run_invoked:
  "foldl (\<lambda>st fn. run_cleanup fn st) (s\<lparr>invoked := x\<rparr>) fns =
   (foldl (\<lambda>st fn. run_cleanup fn st) s fns)\<lparr>invoked := x\<rparr>"
  by (induction fns arbitrary: s) (simp_all add: run_cleanup_invoked)

lemma foldl_invoke_run:
  "foldl invoke s fns =
   (foldl (\<lambda>st fn. run_cleanup fn st) s fns)\<lparr>invoked := invoked s @ fns\<rparr>"
proof (induction fns arbitrary: s)
  case Nil
  then show ?case by simp
next
  case (Cons fn fns)
  have "invoke s fn = (run_cleanup fn s)\<lparr>invoked := invoked s @ [fn]\<rparr>"
    by (simp add: invoke_def)
  then show ?case
    by (simp add: Cons.IH foldl_run_invoked)
qed

lemma deactivate_runs:
  "deactivate s =
     (foldl (\<lambda>st fn. run_cleanup fn st) ((unobserved s)\<lparr>cleanupFns := []\<rparr>) (cleanupFns s))
       \<lparr>invoked := invoked s @ cleanupFns s\<rparr>"
  by (simp add: deactivate_def Let_def unobserved_def foldl_invoke_run disconnect_def
      split: option.splits)

lemma deactivate_effect_free:
  "listeners (deactivate s) =
     filter (\<lambda>x. x \<notin> set (concat (map removed_listeners (cleanupFns s)))) (listeners s)"
  "observing (deactivate s) =
     (case observer s of None \<Rightarrow> observing s
      | Some ob \<Rightarrow> filter (\<lambda>x. x \<noteq> ob) (observing s))"
proof -
  define s2 where "s2 = (case observer s of None \<Rightarrow> s
      | Some ob \<Rightarrow> (disconnect ob s)\<lparr>observer := None\<rparr>)\<lparr>cleanupFns := []\<rparr>"
  have d: "deactivate s = foldl invoke s2 (cleanupFns s)"
    by (simp add: deactivate_def s2_def Let_def disconnect_def split: option.splits)
  have l: "listeners s2 = listeners s"
    by (simp add: s2_def disconnect_def split: option.splits)
  show "listeners (deactivate s) =
     filter (\<lambda>x. x \<notin> set (concat (map removed_listeners (cleanupFns s)))) (listeners s)"
    unfolding d by (simp add: listeners_foldl_invoke l)
  show "observing (deactivate s) =
     (case observer s of None \<Rightarrow> observing s
      | Some ob \<Rightarrow> filter (\<lambda>x. x \<noteq> ob) (observing s))"
    unfolding d by (simp add: foldl_invoke_keeps s2_def disconnect_def split: option.splits)
qed

text \<open>
  C7. \<open>deactivate\<close> leaves no observer: the one that was watching is disconnected and
  the variable is reset. It empties the cleanup registry and invokes every registered
  teardown action once, in registration order: the resulting state is the one obtained
  by running the teardown closures one after another on the state without observer and
  with the emptied registry. So the listeners the actions name are gone, the registered
  nodes are out of the document, and a second \<open>deactivate\<close> changes nothing.
\<close>

theorem deactivate_drains:
  "observer (deactivate s) = None \<and>
   (\<forall>ob. observer s = Some ob \<longrightarrow> ob \<notin> set (observing (deactivate s))) \<and>
   cleanupFns (deactivate s) = [] \<and>
   invoked (deactivate s) = invoked s @ cleanupFns s \<and>
   deactivate (deactivate s) = deactivate s \<and>
   deactivate s =
     (foldl (\<lambda>st fn. run_cleanup fn st) ((unobserved s)\<lparr>cleanupFns := []\<rparr>) (cleanupFns s))
       \<lparr>invoked := invoked s @ cleanupFns s\<rparr> \<and>
   listeners (deactivate s) =
     filter (\<lambda>x. x \<notin> set (concat (map removed_listeners (cleanupFns s)))) (listeners s) \<and>
   observing (deactivate s) =
     (case observer s of None \<Rightarrow> observing s
      | Some ob \<Rightarrow> filter (\<lambda>x. x \<noteq> ob) (observing s)) \<and>
   (nid_of (body s) \<notin> set (concat (map removed_nodes (cleanupFns s))) \<longrightarrow>
      body (deactivate s) =
        prune (\<lambda>n. n \<in> set (concat (map removed_nodes (cleanupFns s)))) (body s))"
proof -
  have a: "observer (deactivate s) = None" and c: "cleanupFns (deactivate s) = []"
    by (rule deactivate_clears)+
  have b: "\<forall>ob. observer s = Some ob \<longrightarrow> ob \<notin> set (observing (deactivate s))"
    by (simp add: deactivate_def Let_def foldl_invoke_keeps disconnect_def split: option.splits)
  have d: "invoked (deactivate s) = invoked s @ cleanupFns s"
    by (simp add: deactivate_def Let_def foldl_invoke_keeps disconnect_def split: option.splits)
  have e: "deactivate (deactivate s) = deactivate s"
    using a c by (simp add: deactivate_def [of "deactivate s"])
  note f = deactivate_runs [of s]
  have g: "listeners (deactivate s) =
     filter (\<lambda>x. x \<notin> set (concat (map removed_listeners (cleanupFns s)))) (listeners s)"
    by (rule deactivate_effect_free(1))
  have h: "observing (deactivate s) =
     (case observer s of None \<Rightarrow> observing s
      | Some ob \<Rightarrow> filter (\<lambda>x. x \<noteq> ob) (observing s))"
    by (rule deactivate_effect_free(2))
  have i: "nid_of (body s) \<notin> set (concat (map removed_nodes (cleanupFns s))) \<longrightarrow>
      body (deactivate s) =
        prune (\<lambda>n. n \<in> set (concat (map removed_nodes (cleanupFns s)))) (body s)"
    using deactivate_effect(1) [of s] by blast
  from a b c d e f g h i show ?thesis by blast
qed

theorem deactivate_drains_witness:
  "observer (activate_floating page_hello) = Some 0 \<and>
   cleanupFns (activate_floating page_hello) = [RemoveCounter 5, RemoveDocListeners] \<and>
   nid_of (body (activate_floating page_hello)) \<notin>
     set (concat (map removed_nodes (cleanupFns (activate_floating page_hello)))) \<and>
   length (listeners (activate_floating page_hello)) = 3 \<and>
   body (activate_floating page_hello) \<noteq> body page_hello \<and>
   0 \<notin> set (observing (deactivate (activate_floating page_hello))) \<and>
   invoked (deactivate (activate_floating page_hello)) = [RemoveCounter 5, RemoveDocListeners] \<and>
   listeners (deactivate (activate_floating page_hello)) = [] \<and>
   body (deactivate (activate_floating page_hello)) = body page_hello \<and>
   deactivate (deactivate (activate_floating page_hello)) = deactivate (activate_floating page_hello)"
proof -
  define X where "X = activate_floating page_hello"
  have h: "observer X = Some 0" unfolding X_def by code_simp
  have i: "cleanupFns X = [RemoveCounter 5, RemoveDocListeners]" unfolding X_def by code_simp
  have j: "invoked X = []" unfolding X_def by code_simp
  have k: "nid_of (body X) \<notin> set (concat (map removed_nodes (cleanupFns X)))"
    unfolding X_def by code_simp
  have l: "length (listeners X) = 3" unfolding X_def by code_simp
  have m: "body X \<noteq> body page_hello" unfolding X_def by code_simp
  have n: "filter (\<lambda>x. x \<notin> set (concat (map removed_listeners (cleanupFns X)))) (listeners X) = []"
    unfolding X_def by code_simp
  have p: "prune (\<lambda>n. n \<in> set (concat (map removed_nodes (cleanupFns X)))) (body X) =
      body page_hello"
    unfolding X_def by code_simp
  from deactivate_drains [of X] h k
  have q: "0 \<notin> set (observing (deactivate X))"
    and r: "invoked (deactivate X) = invoked X @ cleanupFns X"
    and t: "deactivate (deactivate X) = deactivate X"
    and u: "listeners (deactivate X) =
      filter (\<lambda>x. x \<notin> set (concat (map removed_listeners (cleanupFns X)))) (listeners X)"
    and v: "body (deactivate X) =
      prune (\<lambda>n. n \<in> set (concat (map removed_nodes (cleanupFns X)))) (body X)"
    by blast+
  from r have r': "invoked (deactivate X) = [RemoveCounter 5, RemoveDocListeners]"
    by (simp only: i j append_Nil)
  from u n have u': "listeners (deactivate X) = []" by (rule trans)
  from v p have v': "body (deactivate X) = body page_hello" by (rule trans)
  from h i k l m q r' t u' v' show ?thesis unfolding X_def by blast
qed















end
